theory Spec2Isabelle
  imports Main "HOL-Library.Word" "HOL-Library.Finite_Map"
begin

section \<open>Data model of gcptr.cc\<close>

text \<open>
  The collector of \<^verbatim>\<open>src/trunk/gcptr.cc\<close> works on two kinds of heap objects:
  memory block headers (\<^verbatim>\<open>struct mblock\<close>) and smart pointers
  (\<^verbatim>\<open>class basic_ptr\<close>).  Both live in an explicit store keyed by address, so
  that several handles attached to one block alias it as they do in the program.

  Addresses are integers, \<open>0\<close> is the null raw pointer, and a nullable pointer to a
  block is an \<open>addr option\<close>.  The C++ type \<^verbatim>\<open>unsigned\<close> is a 32-bit word.

  The intrusive singly linked lists of blocks (field \<^verbatim>\<open>mblock::next\<close>) and the
  lists of handles (fields \<^verbatim>\<open>basic_ptr::next\<close>, \<^verbatim>\<open>basic_ptr::prev\<close>) are lists of
  addresses: the head pointer of the program is the list, \<^verbatim>\<open>push\<close> is cons and
  \<^verbatim>\<open>pop\<close> takes the head off.  One mutator thread is modelled, so the two
  thread-local lists are fields of the state.
\<close>

type_synonym addr = int

record basic_ptr =
  mem :: "addr option"
  pval :: addr

text \<open>
  Field \<open>destroy\<close> tells whether the destructor callback is non-null; the only
  callback the typed handle ever passes is \<^verbatim>\<open>ptr<T>::destroy\<close>.
\<close>

record mblock =
  destroy :: bool
  members :: "addr list"
  nelems :: "32 word"
  objsize :: "32 word"
  active :: bool
  marked :: bool

text \<open>
  Exceptions of the program, and \<open>undefined_behaviour\<close> for the places where the
  C++ reads through a null or dangling pointer.
\<close>

datatype exn =
    ptr_exception string
  | bad_alloc
  | constructor_exception
  | undefined_behaviour

record gcstate =
  threshold :: "32 word"
  allocated :: "32 word"
  busy :: bool
  roots :: "addr list"
  active_blocks :: "addr list"
  constr_stack :: "addr list"
  new_blocks :: "addr list"
  blocks :: "(addr, mblock) fmap"
  handles :: "addr \<rightharpoonup> basic_ptr"
  destroyed :: "(addr \<times> nat) list"
  owned :: "addr \<times> nat \<Rightarrow> addr list"

text \<open>
  \<open>destroyed\<close> is the trace of element destructor calls, each recorded as the
  payload address of its block and the index of the element.

  An element destructor \<^verbatim>\<open>~T()\<close> is user code; what it does to the collector is to
  run \<^verbatim>\<open>~basic_ptr()\<close> on the handles the element owns: its handle subobjects and
  the handles held in storage it manages.  Which handles these are is a fact of the
  element types that no structure of \<^verbatim>\<open>gcptr.cc\<close> records; \<open>owned s (p, i)\<close> lists them
  for element \<open>i\<close> of the payload at \<open>p\<close>.  Only user code, that is a constructor,
  writes this field.
\<close>

definition initial_state :: gcstate where
  "initial_state =
     \<lparr>threshold = 100 * 1024, allocated = 0, busy = False, roots = [],
      active_blocks = [], constr_stack = [], new_blocks = [],
      blocks = fmempty, handles = Map.empty, destroyed = [], owned = (\<lambda>_. [])\<rparr>"

subsection \<open>Memory block header\<close>

text \<open>
  \<^verbatim>\<open>mblock::size()\<close> is the header size rounded up to the maximal alignment; 48
  on an LP64 platform.  No statement below depends on the number.
\<close>

definition mblock_size :: int where
  "mblock_size = 48"

definition mblock_ctor :: "32 word \<Rightarrow> 32 word \<Rightarrow> bool \<Rightarrow> mblock" where
  "mblock_ctor nels sz destr =
     \<lparr>destroy = destr, members = [], nelems = nels, objsize = sz,
      active = False, marked = False\<rparr>"

definition obj :: "addr \<Rightarrow> addr" where
  "obj b = b + mblock_size"

definition contains :: "addr \<Rightarrow> mblock \<Rightarrow> addr \<Rightarrow> bool" where
  "contains b mb a \<longleftrightarrow> obj b \<le> a \<and> a < obj b + uint (objsize mb)"

text \<open>
  \<^verbatim>\<open>unlink()\<close> returns at once for a member (the \<^verbatim>\<open>prev == this\<close> mark, here: not
  on the roots list) and takes a root off the roots list.  The destructor
  \<^verbatim>\<open>~basic_ptr()\<close> is \<^verbatim>\<open>unlink()\<close>; the storage of the handle is released by its
  owner, and the handle store keeps what that memory holds.
\<close>

definition unlink :: "addr \<Rightarrow> gcstate \<Rightarrow> gcstate" where
  "unlink h s = (if h \<in> set (roots s) then s\<lparr>roots := remove1 h (roots s)\<rparr> else s)"

definition basic_ptr_dtor :: "addr \<Rightarrow> gcstate \<Rightarrow> gcstate" where
  "basic_ptr_dtor h s = unlink h s"

text \<open>
  \<^verbatim>\<open>(t++)->~T()\<close> on element \<open>i\<close> of the payload at \<open>p\<close>: the call is recorded and
  the handles the element owns are destroyed.
\<close>

definition destroy_elem :: "addr \<Rightarrow> nat \<Rightarrow> gcstate \<Rightarrow> gcstate" where
  "destroy_elem p i s =
     fold basic_ptr_dtor (owned s (p, i)) (s\<lparr>destroyed := destroyed s @ [(p, i)]\<rparr>)"

text \<open>
  \<^verbatim>\<open>ptr<T>::destroy(p, nelems)\<close> runs the destructor of the elements
  \<open>0, ..., nelems - 1\<close> in this order and swallows what they throw.
\<close>

definition ptr_destroy :: "addr \<Rightarrow> 32 word \<Rightarrow> gcstate \<Rightarrow> gcstate" where
  "ptr_destroy p n s = fold (destroy_elem p) [0 ..< unat n] s"

text \<open>\<^verbatim>\<open>~mblock()\<close>: \<^verbatim>\<open>if ( destroy ) destroy(obj(), nelems)\<close>.\<close>

definition mblock_dtor :: "addr \<Rightarrow> mblock \<Rightarrow> gcstate \<Rightarrow> gcstate" where
  "mblock_dtor b mb s = (if destroy mb then ptr_destroy (obj b) (nelems mb) s else s)"

text \<open>\<^verbatim>\<open>delete[] reinterpret_cast<char *>(mb)\<close>: the block leaves the store.\<close>

definition delete_block :: "addr \<Rightarrow> gcstate \<Rightarrow> gcstate" where
  "delete_block b s = s\<lparr>blocks := fmdrop b (blocks s)\<rparr>"

subsection \<open>List primitives\<close>

definition push :: "addr \<Rightarrow> addr list \<Rightarrow> addr list" where
  "push mb list = mb # list"

text \<open>\<^verbatim>\<open>pop\<close> reads \<^verbatim>\<open>list->next\<close>: on the empty list that is a null dereference.\<close>

fun pop :: "addr list \<Rightarrow> (addr \<times> addr list) option" where
  "pop [] = None"
| "pop (mb # list) = Some (mb, list)"

subsection \<open>Attachment\<close>

text \<open>
  A member function of a handle is applied to the handle stored at address \<open>h\<close>,
  which stands for \<^verbatim>\<open>this\<close>; the result is \<open>None\<close> (undefined behaviour) when
  no handle lives there.
\<close>

definition set_handle :: "addr \<Rightarrow> basic_ptr \<Rightarrow> gcstate \<Rightarrow> gcstate" where
  "set_handle h p s = s\<lparr>handles := (handles s)(h \<mapsto> p)\<rparr>"

definition attach :: "addr \<Rightarrow> addr \<Rightarrow> gcstate \<Rightarrow> (bool \<times> gcstate) option" where
  "attach h p s =
     (case (handles s h, handles s p) of
        (Some this, Some src) \<Rightarrow>
          Some (mem src \<noteq> None, set_handle h (this\<lparr>mem := mem src\<rparr>) s)
      | _ \<Rightarrow> None)"

definition attach0 :: "addr \<Rightarrow> gcstate \<Rightarrow> (bool \<times> gcstate) option" where
  "attach0 h s =
     (case handles s h of
        Some this \<Rightarrow>
          (let tp = (case constr_stack s of [] \<Rightarrow> None | b # _ \<Rightarrow> Some b)
           in Some (tp \<noteq> None, set_handle h (this\<lparr>mem := tp\<rparr>) s))
      | None \<Rightarrow> None)"

definition is_attached :: "addr \<Rightarrow> gcstate \<Rightarrow> bool option" where
  "is_attached h s = map_option (\<lambda>this. mem this \<noteq> None) (handles s h)"

definition detach :: "addr \<Rightarrow> gcstate \<Rightarrow> gcstate option" where
  "detach h s =
     (case handles s h of
        Some this \<Rightarrow> Some (set_handle h (this\<lparr>mem := None\<rparr>) s)
      | None \<Rightarrow> None)"

section \<open>Garbage collector\<close>

subsection \<open>Mark phase\<close>

text \<open>
  \<^verbatim>\<open>mark(list)\<close> walks a list of handles; for a handle attached to an active,
  unmarked block it sets the mark and calls itself on the members of that block before
  it goes on with the rest of the list.  Reading a handle or a block that is not in the
  store is a read through a dangling pointer, the result \<open>None\<close>.  The recursion
  ends because every nested call has marked one more of the finitely many blocks of
  \<open>unmarked\<close>.
\<close>

definition set_marked :: "addr \<Rightarrow> mblock \<Rightarrow> gcstate \<Rightarrow> gcstate" where
  "set_marked b mb s = s\<lparr>blocks := fmupd b (mb\<lparr>marked := True\<rparr>) (blocks s)\<rparr>"

definition unmarked :: "gcstate \<Rightarrow> addr set" where
  "unmarked s = {b. \<exists>mb. fmlookup (blocks s) b = Some mb \<and> active mb \<and> \<not> marked mb}"

function mark :: "addr list \<Rightarrow> gcstate \<Rightarrow> gcstate option" where
  "mark [] s = Some s"
| "mark (h # list) s =
     (case handles s h of
        None \<Rightarrow> None
      | Some p \<Rightarrow>
          (case mem p of
             None \<Rightarrow> mark list s
           | Some mb \<Rightarrow>
               (case fmlookup (blocks s) mb of
                  None \<Rightarrow> None
                | Some blk \<Rightarrow>
                    if active blk \<and> \<not> marked blk then
                      (case mark (members blk) (set_marked mb blk s) of
                         None \<Rightarrow> None
                       | Some s' \<Rightarrow> mark list s')
                    else mark list s)))"
  by pat_completeness auto

lemma finite_unmarked: "finite (unmarked s)"
proof -
  have "unmarked s \<subseteq> fmdom' (blocks s)"
    by (auto simp: unmarked_def fmlookup_dom'_iff)
  then show ?thesis
    by (rule finite_subset) simp
qed

lemma unmarked_set_marked:
  assumes "fmlookup (blocks s) b = Some mb" "active mb" "\<not> marked mb"
  shows "unmarked (set_marked b mb s) = unmarked s - {b}"
  using assms by (auto simp: unmarked_def set_marked_def)

lemma card_unmarked_set_marked:
  assumes "fmlookup (blocks s) b = Some mb" "active mb" "\<not> marked mb"
  shows "card (unmarked (set_marked b mb s)) < card (unmarked s)"
proof -
  have "b \<in> unmarked s"
    using assms by (auto simp: unmarked_def)
  then show ?thesis
    unfolding unmarked_set_marked [OF assms]
    by (rule card_Diff1_less [OF finite_unmarked])
qed

lemma mark_unmarked_subset:
  "mark_dom (list, s) \<Longrightarrow> mark list s = Some s' \<Longrightarrow> unmarked s' \<subseteq> unmarked s"
proof (induction list s arbitrary: s' rule: mark.pinduct)
  case (1 s)
  then show ?case by (simp add: mark.psimps)
next
  case (2 h list s)
  from "2.prems" "2.hyps" obtain p where p: "handles s h = Some p"
    by (auto simp: mark.psimps split: option.splits)
  show ?case
  proof (cases "mem p")
    case None
    with 2 p show ?thesis by (simp add: mark.psimps)
  next
    case (Some mb)
    from "2.prems" "2.hyps" p Some obtain blk where blk: "fmlookup (blocks s) mb = Some blk"
      by (auto simp: mark.psimps split: option.splits)
    show ?thesis
    proof (cases "active blk \<and> \<not> marked blk")
      case False
      with 2 p Some blk show ?thesis by (simp add: mark.psimps)
    next
      case True
      from "2.prems" "2.hyps" p Some blk True obtain s1 where
        s1: "mark (members blk) (set_marked mb blk s) = Some s1" and s': "mark list s1 = Some s'"
        by (auto simp: mark.psimps split: option.splits)
      have "unmarked s1 \<subseteq> unmarked (set_marked mb blk s)"
        using "2.IH"(2) p Some blk True s1 by simp
      moreover have "unmarked s' \<subseteq> unmarked s1"
        using "2.IH"(3) p Some blk True s1 s' by simp
      moreover have "unmarked (set_marked mb blk s) \<subseteq> unmarked s"
        using unmarked_set_marked [OF blk] True by auto
      ultimately show ?thesis by blast
    qed
  qed
qed

termination mark
proof (relation "measures [\<lambda>(list, s). card (unmarked s), \<lambda>(list, s). length list]", goal_cases)
  case 1
  show ?case by simp
next
  case (2 h list s p)
  then show ?case by simp
next
  case (3 h list s p mb blk)
  then show ?case by (simp add: card_unmarked_set_marked)
next
  case (4 h list s p mb blk s')
  then have "unmarked s' \<subseteq> unmarked (set_marked mb blk s)"
    using mark_unmarked_subset by blast
  then have "card (unmarked s') \<le> card (unmarked (set_marked mb blk s))"
    by (simp add: card_mono finite_unmarked)
  also have "\<dots> < card (unmarked s)"
    using 4 by (simp add: card_unmarked_set_marked)
  finally show ?case by simp
next
  case (5 h list s p mb blk)
  then show ?case by simp
qed

subsection \<open>Sweep and reclaim\<close>

text \<open>
  The first loop of \<^verbatim>\<open>gc\<close> pops every block off \<^verbatim>\<open>active_blocks\<close> and pushes it
  on the local list \<open>act\<close> (clearing its mark) or on \<open>garbage\<close>.  The list walked is
  the argument; \<^verbatim>\<open>gc\<close> stores \<open>act\<close> into \<^verbatim>\<open>active_blocks\<close> afterwards.
\<close>

definition clear_marked :: "addr \<Rightarrow> mblock \<Rightarrow> gcstate \<Rightarrow> gcstate" where
  "clear_marked b mb s = s\<lparr>blocks := fmupd b (mb\<lparr>marked := False\<rparr>) (blocks s)\<rparr>"

fun sweep :: "addr list \<Rightarrow> addr list \<Rightarrow> addr list \<Rightarrow> gcstate
    \<Rightarrow> (addr list \<times> addr list \<times> gcstate) option" where
  "sweep [] act garbage s = Some (act, garbage, s)"
| "sweep (b # rest) act garbage s =
     (case fmlookup (blocks s) b of
        None \<Rightarrow> None
      | Some mb \<Rightarrow>
          if marked mb then sweep rest (push b act) garbage (clear_marked b mb s)
          else sweep rest act (push b garbage) s)"

text \<open>The second loop: \<^verbatim>\<open>freed += mb->objsize; mb->~mblock(); delete[] ...\<close>.\<close>

fun reclaim :: "addr list \<Rightarrow> 32 word \<Rightarrow> gcstate \<Rightarrow> (32 word \<times> gcstate) option" where
  "reclaim [] freed s = Some (freed, s)"
| "reclaim (b # garbage) freed s =
     (case fmlookup (blocks s) b of
        None \<Rightarrow> None
      | Some mb \<Rightarrow> reclaim garbage (freed + objsize mb) (delete_block b (mblock_dtor b mb s)))"

text \<open>
  \<^verbatim>\<open>gc(unconditional)\<close>.  The three mutexes serialise threads and do not show with
  one thread; \<open>busy\<close> is the static flag that stops a collection from starting inside
  another one.
\<close>

definition gc :: "bool \<Rightarrow> gcstate \<Rightarrow> (32 word \<times> gcstate) option" where
  "gc unconditional s =
     (if busy s \<or> (\<not> unconditional \<and> allocated s < threshold s) then Some (0, s)
      else
        (case mark (roots s) (s\<lparr>busy := True, allocated := 0\<rparr>) of
           None \<Rightarrow> None
         | Some s1 \<Rightarrow>
             (case sweep (active_blocks s1) [] [] s1 of
                None \<Rightarrow> None
              | Some (act, garbage, s2) \<Rightarrow>
                  (case reclaim garbage 0 (s2\<lparr>active_blocks := act\<rparr>) of
                     None \<Rightarrow> None
                   | Some (freed, s3) \<Rightarrow> Some (freed, s3\<lparr>busy := False\<rparr>)))))"

subsection \<open>Garbage collection API\<close>

definition collect :: "gcstate \<Rightarrow> (32 word \<times> gcstate) option" where
  "collect s = gc True s"

definition collect_threshold :: "32 word \<Rightarrow> gcstate \<Rightarrow> 32 word \<times> gcstate" where
  "collect_threshold newthr s =
     (let oldthr = threshold s
      in (oldthr, if newthr \<noteq> 0 then s\<lparr>threshold := newthr\<rparr> else s))"

section \<open>Class basic_ptr\<close>

subsection \<open>Registration\<close>

text \<open>
  \<^verbatim>\<open>link()\<close> makes the handle at address \<open>h\<close> a member of the block on top of the
  construction stack when its own address lies in that block's payload, and a root
  otherwise.
\<close>

definition link :: "addr \<Rightarrow> gcstate \<Rightarrow> gcstate option" where
  "link h s =
     (case constr_stack s of
        [] \<Rightarrow> Some (s\<lparr>roots := h # roots s\<rparr>)
      | tp # _ \<Rightarrow>
          (case fmlookup (blocks s) tp of
             None \<Rightarrow> None
           | Some mb \<Rightarrow>
               if contains tp mb h
               then Some (s\<lparr>blocks := fmupd tp (mb\<lparr>members := h # members mb\<rparr>) (blocks s)\<rparr>)
               else Some (s\<lparr>roots := h # roots s\<rparr>)))"

subsection \<open>Constructors and assignment operators\<close>

definition basic_ptr_default :: "addr \<Rightarrow> gcstate \<Rightarrow> gcstate option" where
  "basic_ptr_default h s = link h (set_handle h \<lparr>mem = None, pval = 0\<rparr> s)"

definition basic_ptr_copy :: "addr \<Rightarrow> addr \<Rightarrow> gcstate \<Rightarrow> gcstate option" where
  "basic_ptr_copy h src s =
     (case handles s src of
        None \<Rightarrow> None
      | Some p \<Rightarrow> link h (set_handle h \<lparr>mem = mem p, pval = pval p\<rparr> s))"

definition assign :: "addr \<Rightarrow> addr \<Rightarrow> gcstate \<Rightarrow> gcstate option" where
  "assign h src s =
     (case (handles s h, handles s src) of
        (Some this, Some p) \<Rightarrow> Some (set_handle h (this\<lparr>mem := mem p, pval := pval p\<rparr>) s)
      | _ \<Rightarrow> None)"

definition basic_ptr_raw :: "addr \<Rightarrow> addr \<Rightarrow> gcstate \<Rightarrow> gcstate option" where
  "basic_ptr_raw h src s = link h (set_handle h \<lparr>mem = None, pval = src\<rparr> s)"

definition assign_raw :: "addr \<Rightarrow> addr \<Rightarrow> gcstate \<Rightarrow> gcstate option" where
  "assign_raw h src s =
     (case handles s h of
        Some this \<Rightarrow> Some (set_handle h (this\<lparr>pval := src\<rparr>) s)
      | None \<Rightarrow> None)"

definition basic_ptr_from :: "addr \<Rightarrow> addr \<Rightarrow> addr \<Rightarrow> gcstate \<Rightarrow> gcstate option" where
  "basic_ptr_from h src p s =
     (case handles s src of
        None \<Rightarrow> None
      | Some q \<Rightarrow> link h (set_handle h \<lparr>mem = mem q, pval = p\<rparr> s))"

subsection \<open>Dereference check\<close>

definition BadDeref :: exn where
  "BadDeref = ptr_exception ''dereferencing null ptr''"

definition OutOfBounds :: exn where
  "OutOfBounds = ptr_exception ''dereferencing out of bounds ptr''"

definition check :: "addr \<Rightarrow> gcstate \<Rightarrow> exn + unit" where
  "check h s =
     (case handles s h of
        None \<Rightarrow> Inl undefined_behaviour
      | Some this \<Rightarrow>
          if pval this = 0 then Inl BadDeref
          else
            (case mem this of
               None \<Rightarrow> Inr ()
             | Some m \<Rightarrow>
                 (case fmlookup (blocks s) m of
                    None \<Rightarrow> Inl undefined_behaviour
                  | Some mb \<Rightarrow> if \<not> contains m mb (pval this) then Inl OutOfBounds else Inr ())))"

subsection \<open>Allocation\<close>

text \<open>
  \<open>new_char\<close> is what \<^verbatim>\<open>new char[mblock::size() + objsize]\<close> does: \<open>None\<close> when it
  throws, the address of the storage otherwise.  The bytes of the payload are not part
  of the state, so the \<open>zero\<close> flag has nothing to fill.
\<close>

definition alloc_begin :: "addr \<Rightarrow> 32 word \<Rightarrow> 32 word \<Rightarrow> bool \<Rightarrow> bool \<Rightarrow> addr option \<Rightarrow> gcstate
    \<Rightarrow> (exn + addr) \<times> gcstate" where
  "alloc_begin h nels elem_size destr zero new_char s =
     (case gc False s of
        None \<Rightarrow> (Inl undefined_behaviour, s)
      | Some (_, s1) \<Rightarrow>
          (case handles s1 h of
             None \<Rightarrow> (Inl undefined_behaviour, s1)
           | Some this \<Rightarrow>
               (let objsz = nels * elem_size in
                case new_char of
                  None \<Rightarrow> (Inl bad_alloc, set_handle h (this\<lparr>mem := None\<rparr>) s1)
                | Some m \<Rightarrow>
                    (let s2 = s1\<lparr>blocks := fmupd m (mblock_ctor nels objsz destr) (blocks s1)\<rparr>;
                         s3 = s2\<lparr>constr_stack := push m (constr_stack s2)\<rparr>
                     in (Inr (obj m), set_handle h \<lparr>mem = Some m, pval = obj m\<rparr> s3)))))"

text \<open>
  The last loop of \<^verbatim>\<open>alloc_end\<close>: while \<^verbatim>\<open>new_blocks\<close> is not empty, set the head
  active and move it to \<^verbatim>\<open>active_blocks\<close>.
\<close>

fun activate :: "addr list \<Rightarrow> gcstate \<Rightarrow> gcstate option" where
  "activate [] s = Some (s\<lparr>new_blocks := []\<rparr>)"
| "activate (b # rest) s =
     (case fmlookup (blocks s) b of
        None \<Rightarrow> None
      | Some mb \<Rightarrow>
          activate rest
            (s\<lparr>blocks := fmupd b (mb\<lparr>active := True\<rparr>) (blocks s),
               new_blocks := rest,
               active_blocks := push b (active_blocks s)\<rparr>))"

definition alloc_end :: "addr \<Rightarrow> 32 word \<Rightarrow> gcstate \<Rightarrow> gcstate option" where
  "alloc_end h nconstructed s =
     (case pop (constr_stack s) of
        None \<Rightarrow> None
      | Some (_, stack) \<Rightarrow>
          (let s1 = s\<lparr>constr_stack := stack\<rparr> in
           case handles s1 h of
             None \<Rightarrow> None
           | Some this \<Rightarrow>
               (case mem this of
                  None \<Rightarrow> Some s1
                | Some m \<Rightarrow>
                    (case fmlookup (blocks s1) m of
                       None \<Rightarrow> None
                     | Some mb \<Rightarrow>
                         (let s2 =
                            (if nconstructed < nelems mb then
                               set_handle h (this\<lparr>mem := None\<rparr>)
                                 (delete_block m (mblock_dtor m (mb\<lparr>nelems := nconstructed\<rparr>) s1))
                             else
                               s1\<lparr>allocated := allocated s1 + objsize mb,
                                  new_blocks := push m (new_blocks s1)\<rparr>)
                          in if constr_stack s2 \<noteq> [] then Some s2
                             else activate (new_blocks s2) s2)))))"

section \<open>Class template ptr\<close>

text \<open>
  The element type \<^verbatim>\<open>T\<close> of \<^verbatim>\<open>ptr<T>\<close> enters through its size and the two
  compile-time tests of \<^verbatim>\<open>gcptr.h\<close>.  Pointer arithmetic on the target moves it by
  multiples of \<open>sizeof T\<close>.
\<close>

record ctype =
  sizeof :: nat
  use_destructor :: bool
  use_default_constructor :: bool

text \<open>\<^verbatim>\<open>destr = use_destructor<T>() ? destroy : nullptr\<close>\<close>

definition destr :: "ctype \<Rightarrow> bool" where
  "destr T = use_destructor T"

definition ptr_raw :: "addr \<Rightarrow> addr \<Rightarrow> gcstate \<Rightarrow> gcstate option" where
  "ptr_raw h p s = basic_ptr_raw h p s"

definition ptr_assign_raw :: "addr \<Rightarrow> addr \<Rightarrow> gcstate \<Rightarrow> gcstate option" where
  "ptr_assign_raw h p s = assign_raw h p s"

subsection \<open>Pointer operations\<close>

text \<open>
  The three dereference operators return the address of the object they denote.
  \<^verbatim>\<open>operator []\<close> calls \<^verbatim>\<open>check()\<close> on the handle itself and then yields
  \<^verbatim>\<open>cref()[n]\<close>.
\<close>

definition ptr_arrow :: "addr \<Rightarrow> gcstate \<Rightarrow> exn + addr" where
  "ptr_arrow h s =
     (case check h s of Inl e \<Rightarrow> Inl e | Inr _ \<Rightarrow> Inr (pval (the (handles s h))))"

definition ptr_deref :: "addr \<Rightarrow> gcstate \<Rightarrow> exn + addr" where
  "ptr_deref h s =
     (case check h s of Inl e \<Rightarrow> Inl e | Inr _ \<Rightarrow> Inr (pval (the (handles s h))))"

definition ptr_index :: "ctype \<Rightarrow> addr \<Rightarrow> int \<Rightarrow> gcstate \<Rightarrow> exn + addr" where
  "ptr_index T h n s =
     (case check h s of
        Inl e \<Rightarrow> Inl e
      | Inr _ \<Rightarrow> Inr (pval (the (handles s h)) + n * int (sizeof T)))"

text \<open>\<^verbatim>\<open>ref() += n\<close> on the handle at \<open>h\<close>.\<close>

definition ref_add :: "ctype \<Rightarrow> addr \<Rightarrow> int \<Rightarrow> gcstate \<Rightarrow> gcstate option" where
  "ref_add T h n s =
     (case handles s h of
        None \<Rightarrow> None
      | Some this \<Rightarrow> Some (set_handle h (this\<lparr>pval := pval this + n * int (sizeof T)\<rparr>) s))"

definition ptr_pre_inc :: "ctype \<Rightarrow> addr \<Rightarrow> gcstate \<Rightarrow> gcstate option" where
  "ptr_pre_inc T h s = ref_add T h 1 s"

definition ptr_pre_dec :: "ctype \<Rightarrow> addr \<Rightarrow> gcstate \<Rightarrow> gcstate option" where
  "ptr_pre_dec T h s = ref_add T h (- 1) s"

text \<open>
  The postfix operators and the binary ones build a new handle; \<open>r\<close> is the address
  where the result is constructed.
\<close>

definition ptr_post_inc :: "ctype \<Rightarrow> addr \<Rightarrow> addr \<Rightarrow> gcstate \<Rightarrow> gcstate option" where
  "ptr_post_inc T h r s =
     (case basic_ptr_copy r h s of None \<Rightarrow> None | Some s1 \<Rightarrow> ref_add T h 1 s1)"

definition ptr_post_dec :: "ctype \<Rightarrow> addr \<Rightarrow> addr \<Rightarrow> gcstate \<Rightarrow> gcstate option" where
  "ptr_post_dec T h r s =
     (case basic_ptr_copy r h s of None \<Rightarrow> None | Some s1 \<Rightarrow> ref_add T h (- 1) s1)"

definition ptr_add_assign :: "ctype \<Rightarrow> addr \<Rightarrow> int \<Rightarrow> gcstate \<Rightarrow> gcstate option" where
  "ptr_add_assign T h n s = ref_add T h n s"

definition ptr_sub_assign :: "ctype \<Rightarrow> addr \<Rightarrow> int \<Rightarrow> gcstate \<Rightarrow> gcstate option" where
  "ptr_sub_assign T h n s = ref_add T h (- n) s"

definition ptr_plus :: "ctype \<Rightarrow> addr \<Rightarrow> int \<Rightarrow> addr \<Rightarrow> gcstate \<Rightarrow> gcstate option" where
  "ptr_plus T h n r s =
     (case handles s h of
        None \<Rightarrow> None
      | Some this \<Rightarrow> basic_ptr_from r h (pval this + n * int (sizeof T)) s)"

definition ptr_minus :: "ctype \<Rightarrow> addr \<Rightarrow> int \<Rightarrow> addr \<Rightarrow> gcstate \<Rightarrow> gcstate option" where
  "ptr_minus T h n r s =
     (case handles s h of
        None \<Rightarrow> None
      | Some this \<Rightarrow> basic_ptr_from r h (pval this - n * int (sizeof T)) s)"

subsection \<open>Typed allocation\<close>

text \<open>
  An element constructor is user code: \<open>ctor n s\<close> constructs element \<open>n\<close> in state
  \<open>s\<close> and yields the state it leaves, with the exception it threw, if any.  The
  loop \<^verbatim>\<open>for ( ; n < nelems ; n++ ) new(t++) T(...)\<close> stops at the first exception
  and returns the count \<open>n\<close> it reached.
\<close>

type_synonym constructor = "32 word \<Rightarrow> gcstate \<Rightarrow> exn option \<times> gcstate"

function construct :: "constructor \<Rightarrow> 32 word \<Rightarrow> 32 word \<Rightarrow> gcstate
    \<Rightarrow> exn option \<times> 32 word \<times> gcstate" where
  "construct ctor n nels s =
     (if n < nels then
        (case ctor n s of
           (Some e, s') \<Rightarrow> (Some e, n, s')
         | (None, s') \<Rightarrow> construct ctor (n + 1) nels s')
      else (None, n, s))"
  by pat_completeness auto

lemma unat_succ_less: "n < nels \<Longrightarrow> unat (n + 1) = unat n + 1" for n :: "32 word"
  by (unat_arith; simp?)

termination construct
proof (relation "measure (\<lambda>(ctor, n, nels, s). unat nels - unat n)", goal_cases)
  case 1
  show ?case by simp
next
  case (2 ctor n nels s)
  from \<open>n < nels\<close> have "unat (n + 1) = unat n + 1"
    by (rule unat_succ_less)
  with \<open>n < nels\<close> show ?case
    by (simp add: word_less_nat_alt)
qed

declare construct.simps [simp del]

text \<open>
  The handler \<^verbatim>\<open>catch (...) { alloc_end(n); throw; }\<close>.  Undefined behaviour is no
  exception and is not caught.
\<close>

definition catch_all :: "addr \<Rightarrow> 32 word \<Rightarrow> exn \<Rightarrow> gcstate \<Rightarrow> exn option \<times> gcstate" where
  "catch_all h n e s =
     (if e = undefined_behaviour then (Some e, s)
      else
        (case alloc_end h n s of
           None \<Rightarrow> (Some undefined_behaviour, s)
         | Some s' \<Rightarrow> (Some e, s')))"

definition try_end :: "addr \<Rightarrow> 32 word \<Rightarrow> gcstate \<Rightarrow> exn option \<times> gcstate" where
  "try_end h n s =
     (case alloc_end h n s of
        None \<Rightarrow> (Some undefined_behaviour, s)
      | Some s' \<Rightarrow> (None, s'))"

text \<open>\<^verbatim>\<open>alloc_array(unsigned nelems, U&& first, V&&... rest)\<close>\<close>

definition alloc_array_args :: "ctype \<Rightarrow> addr \<Rightarrow> 32 word \<Rightarrow> constructor \<Rightarrow> addr option \<Rightarrow> gcstate
    \<Rightarrow> exn option \<times> gcstate" where
  "alloc_array_args T h nels ctor new_char s =
     (case alloc_begin h nels (word_of_nat (sizeof T)) (destr T) False new_char s of
        (Inl e, s1) \<Rightarrow> catch_all h 0 e s1
      | (Inr t, s1) \<Rightarrow>
          (case construct ctor 0 nels s1 of
             (Some e, n, s2) \<Rightarrow> catch_all h n e s2
           | (None, n, s2) \<Rightarrow> try_end h n s2))"

text \<open>\<^verbatim>\<open>alloc_array(unsigned nelems, initspec_t init = init_undef)\<close>\<close>

definition alloc_array :: "ctype \<Rightarrow> addr \<Rightarrow> 32 word \<Rightarrow> bool \<Rightarrow> constructor \<Rightarrow> addr option \<Rightarrow> gcstate
    \<Rightarrow> exn option \<times> gcstate" where
  "alloc_array T h nels init_zero ctor new_char s =
     (case alloc_begin h nels (word_of_nat (sizeof T)) (destr T) init_zero new_char s of
        (Inl e, s1) \<Rightarrow> catch_all h 0 e s1
      | (Inr t, s1) \<Rightarrow>
          (case (if use_default_constructor T then construct ctor 0 nels s1
                 else (None, nels, s1)) of
             (Some e, n, s2) \<Rightarrow> catch_all h n e s2
           | (None, n, s2) \<Rightarrow> try_end h n s2))"

text \<open>\<^verbatim>\<open>alloc(U&& first, V&&... rest)\<close>\<close>

definition alloc_args :: "ctype \<Rightarrow> addr \<Rightarrow> constructor \<Rightarrow> addr option \<Rightarrow> gcstate
    \<Rightarrow> exn option \<times> gcstate" where
  "alloc_args T h ctor new_char s =
     (case alloc_begin h 1 (word_of_nat (sizeof T)) (destr T) False new_char s of
        (Inl e, s1) \<Rightarrow> catch_all h 0 e s1
      | (Inr t, s1) \<Rightarrow>
          (case ctor 0 s1 of
             (Some e, s2) \<Rightarrow> catch_all h 0 e s2
           | (None, s2) \<Rightarrow> try_end h 1 s2))"

text \<open>\<^verbatim>\<open>alloc(initspec_t init = init_undef)\<close>\<close>

definition alloc :: "ctype \<Rightarrow> addr \<Rightarrow> bool \<Rightarrow> constructor \<Rightarrow> addr option \<Rightarrow> gcstate
    \<Rightarrow> exn option \<times> gcstate" where
  "alloc T h init_zero ctor new_char s =
     (case alloc_begin h 1 (word_of_nat (sizeof T)) (destr T) init_zero new_char s of
        (Inl e, s1) \<Rightarrow> catch_all h 0 e s1
      | (Inr t, s1) \<Rightarrow>
          (case (if use_default_constructor T then ctor 0 s1 else (None, s1)) of
             (Some e, s2) \<Rightarrow> catch_all h 0 e s2
           | (None, s2) \<Rightarrow> try_end h 1 s2))"

section \<open>Reachability and quiescent states\<close>

text \<open>
  A handle is attached to the block its \<open>mem\<close> field points to.  A member edge leads
  from a block to every block one of its member handles is attached to.  A block is
  reachable when a root handle is attached to a block from which member edges lead to
  it.
\<close>

definition attached :: "gcstate \<Rightarrow> addr \<Rightarrow> addr \<Rightarrow> bool" where
  "attached s h b \<longleftrightarrow> (\<exists>p. handles s h = Some p \<and> mem p = Some b)"

definition member_edge :: "gcstate \<Rightarrow> addr \<Rightarrow> addr \<Rightarrow> bool" where
  "member_edge s b b' \<longleftrightarrow>
     (\<exists>mb h. fmlookup (blocks s) b = Some mb \<and> h \<in> set (members mb) \<and> attached s h b')"

definition reachable :: "gcstate \<Rightarrow> addr \<Rightarrow> bool" where
  "reachable s b \<longleftrightarrow>
     (\<exists>h b0. h \<in> set (roots s) \<and> attached s h b0 \<and> (member_edge s)\<^sup>*\<^sup>* b0 b)"

text \<open>
  A handle the collector may visit must be a live handle whose block, if any, is a
  live block: the mark phase reads \<^verbatim>\<open>list->mem\<close> and \<^verbatim>\<open>mb->active\<close>.
\<close>

definition valid_handle :: "gcstate \<Rightarrow> addr \<Rightarrow> bool" where
  "valid_handle s h =
     (case handles s h of
        None \<Rightarrow> False
      | Some p \<Rightarrow> (case mem p of None \<Rightarrow> True | Some b \<Rightarrow> fmlookup (blocks s) b \<noteq> None))"

definition valid_block :: "gcstate \<Rightarrow> addr \<Rightarrow> bool" where
  "valid_block s b =
     (case fmlookup (blocks s) b of
        None \<Rightarrow> False
      | Some mb \<Rightarrow> active mb \<and> \<not> marked mb \<and> list_all (valid_handle s) (members mb))"

text \<open>
  A quiescent state: no collection and no allocation is in progress, the live blocks
  are those of the active list, each once, active and unmarked, and the root handles
  and member handles are valid.
\<close>

definition quiescent :: "gcstate \<Rightarrow> bool" where
  "quiescent s \<longleftrightarrow>
     \<not> busy s \<and> constr_stack s = [] \<and> new_blocks s = [] \<and>
     distinct (active_blocks s) \<and> set (active_blocks s) = fmdom' (blocks s) \<and>
     list_all (valid_block s) (active_blocks s) \<and>
     list_all (valid_handle s) (roots s)"

text \<open>The bytes a collection reports for a set of blocks, in 32-bit arithmetic.\<close>

definition objsize_of :: "gcstate \<Rightarrow> addr \<Rightarrow> 32 word" where
  "objsize_of s b = (case fmlookup (blocks s) b of None \<Rightarrow> 0 | Some mb \<Rightarrow> objsize mb)"

section \<open>Auxiliary notions for the correctness of the collector\<close>

text \<open>
  \<open>dtor_handles\<close> are the handles that the destructor of a block header destroys.
  \<open>frame_blocks\<close> and \<open>frame_reclaim\<close> say which fields of the state a phase leaves
  alone; reclaiming may take handles off the roots list.  \<open>marks_more s s'\<close> relates
  the state before a mark phase to a state during or after it: the same blocks with the
  same headers, except that mark bits of active blocks may have been set.  \<open>mark_post\<close> is the postcondition of \<open>mark\<close>, relative to
  the blocks marked before the call.
\<close>

definition dtor_handles :: "gcstate \<Rightarrow> addr \<Rightarrow> mblock \<Rightarrow> addr list" where
  "dtor_handles s b mb =
     (if destroy mb then concat (map (\<lambda>i. owned s (obj b, i)) [0 ..< unat (nelems mb)]) else [])"

definition frame_blocks :: "gcstate \<Rightarrow> gcstate \<Rightarrow> bool" where
  "frame_blocks s s' \<longleftrightarrow>
     threshold s' = threshold s \<and> allocated s' = allocated s \<and> busy s' = busy s \<and>
     roots s' = roots s \<and> active_blocks s' = active_blocks s \<and>
     constr_stack s' = constr_stack s \<and> new_blocks s' = new_blocks s \<and>
     handles s' = handles s \<and> destroyed s' = destroyed s \<and> owned s' = owned s"

definition more_marked :: "mblock \<Rightarrow> mblock \<Rightarrow> bool" where
  "more_marked mb mb' \<longleftrightarrow>
     destroy mb' = destroy mb \<and> members mb' = members mb \<and> nelems mb' = nelems mb \<and>
     objsize mb' = objsize mb \<and> active mb' = active mb \<and>
     (marked mb \<longrightarrow> marked mb') \<and> (marked mb' \<and> \<not> marked mb \<longrightarrow> active mb)"

definition marks_more :: "gcstate \<Rightarrow> gcstate \<Rightarrow> bool" where
  "marks_more s s' \<longleftrightarrow>
     frame_blocks s s' \<and>
     (\<forall>b. rel_option more_marked (fmlookup (blocks s) b) (fmlookup (blocks s') b))"

definition marked_set :: "gcstate \<Rightarrow> addr set" where
  "marked_set s = {b. \<exists>mb. fmlookup (blocks s) b = Some mb \<and> marked mb}"

definition heap_ok :: "gcstate \<Rightarrow> bool" where
  "heap_ok s \<longleftrightarrow>
     (\<forall>b mb h. fmlookup (blocks s) b = Some mb \<longrightarrow> h \<in> set (members mb) \<longrightarrow> valid_handle s h)"

definition all_active :: "gcstate \<Rightarrow> bool" where
  "all_active s \<longleftrightarrow> (\<forall>b mb. fmlookup (blocks s) b = Some mb \<longrightarrow> active mb)"

definition mark_post :: "addr list \<Rightarrow> gcstate \<Rightarrow> gcstate \<Rightarrow> bool" where
  "mark_post l s s' \<longleftrightarrow>
     (\<forall>h b. h \<in> set l \<longrightarrow> attached s h b \<longrightarrow> b \<in> marked_set s') \<and>
     (\<forall>b b'. b \<in> marked_set s' \<longrightarrow> b \<notin> marked_set s \<longrightarrow> member_edge s b b' \<longrightarrow>
        b' \<in> marked_set s') \<and>
     (\<forall>b. b \<in> marked_set s' \<longrightarrow> b \<notin> marked_set s \<longrightarrow>
        (\<exists>h b0. h \<in> set l \<and> attached s h b0 \<and> (member_edge s)\<^sup>*\<^sup>* b0 b))"

definition frame_reclaim :: "gcstate \<Rightarrow> gcstate \<Rightarrow> bool" where
  "frame_reclaim s s' \<longleftrightarrow>
     threshold s' = threshold s \<and> allocated s' = allocated s \<and> busy s' = busy s \<and>
     set (roots s') \<subseteq> set (roots s) \<and> active_blocks s' = active_blocks s \<and>
     constr_stack s' = constr_stack s \<and> new_blocks s' = new_blocks s \<and>
     handles s' = handles s \<and> owned s' = owned s"

section \<open>Example states\<close>

text \<open>
  Three blocks of one element each, whose member handles form the cycle
  \<open>1000 \<rightarrow> 2000 \<rightarrow> 3000 \<rightarrow> 1000\<close>, and one root handle at address \<open>10\<close> whose
  attachment is the parameter.
\<close>

definition ex_block :: "addr list \<Rightarrow> mblock" where
  "ex_block ms =
     \<lparr>destroy = True, members = ms, nelems = 1, objsize = 8, active = True, marked = False\<rparr>"

definition cycle_state :: "addr option \<Rightarrow> gcstate" where
  "cycle_state r =
     initial_state
       \<lparr>roots := [10],
        active_blocks := [3000, 2000, 1000],
        blocks := fmupd 1000 (ex_block [1048])
                   (fmupd 2000 (ex_block [2048])
                     (fmupd 3000 (ex_block [3048]) fmempty)),
        handles := [1048 \<mapsto> \<lparr>mem = Some 2000, pval = 2048\<rparr>,
                    2048 \<mapsto> \<lparr>mem = Some 3000, pval = 3048\<rparr>,
                    3048 \<mapsto> \<lparr>mem = Some 1000, pval = 1048\<rparr>,
                    10 \<mapsto> \<lparr>mem = r, pval = 1048\<rparr>]\<rparr>"

text \<open>The element type \<^verbatim>\<open>int\<close>.\<close>

definition int_type :: ctype where
  "int_type = \<lparr>sizeof = 4, use_destructor = False, use_default_constructor = False\<rparr>"

text \<open>The state after \<^verbatim>\<open>ptr<int> p;\<close> with the handle \<open>p\<close> at address \<open>10\<close>.\<close>

definition handle_state :: gcstate where
  "handle_state = initial_state\<lparr>roots := [10], handles := [10 \<mapsto> \<lparr>mem = None, pval = 0\<rparr>]\<rparr>"

text \<open>A constructor that does nothing, and one whose third call throws.\<close>

definition trivial_ctor :: constructor where
  "trivial_ctor n s = (None, s)"


text \<open>An element type with a throwing default constructor and a destructor.\<close>

definition throw_type :: ctype where
  "throw_type = \<lparr>sizeof = 4, use_destructor = True, use_default_constructor = True\<rparr>"


text \<open>
  A state in the middle of the construction of block \<open>1000\<close>, with a member handle at
  address \<open>1048\<close> inside its payload that is about to allocate.
\<close>

definition nested_state :: gcstate where
  "nested_state =
     initial_state
       \<lparr>roots := [10],
        constr_stack := [1000],
        blocks := fmupd 1000
                    \<lparr>destroy = True, members = [1048], nelems = 1, objsize = 8,
                     active = False, marked = False\<rparr> fmempty,
        handles := [1048 \<mapsto> \<lparr>mem = None, pval = 0\<rparr>,
                    10 \<mapsto> \<lparr>mem = Some 1000, pval = obj 1000\<rparr>]\<rparr>"

text \<open>The state after \<^verbatim>\<open>p.alloc_array(4)\<close> on \<open>handle_state\<close>, block at \<open>1000\<close>.\<close>

definition array_state :: gcstate where
  "array_state =
     handle_state
       \<lparr>allocated := 16,
        active_blocks := [1000],
        blocks := fmupd 1000
                    \<lparr>destroy = False, members = [], nelems = 4, objsize = 16,
                     active = True, marked = False\<rparr> fmempty,
        handles := [10 \<mapsto> \<lparr>mem = Some 1000, pval = obj 1000\<rparr>]\<rparr>"













text \<open>
  A constructor that detaches the requesting handle at \<open>10\<close> for the first element and
  throws for the second one, and the state \<^verbatim>\<open>p.alloc_array(5)\<close> on \<open>handle_state\<close>
  then leaves.
\<close>

definition detach_ctor :: constructor where
  "detach_ctor n s =
     (if n = 0 then
        (case detach 10 s of
           None \<Rightarrow> (Some undefined_behaviour, s)
         | Some s1 \<Rightarrow> (None, s1))
      else (Some constructor_exception, s))"

definition abandoned_state :: gcstate where
  "abandoned_state =
     handle_state
       \<lparr>blocks := fmupd 1000 (mblock_ctor 5 20 True) fmempty,
        handles := [10 \<mapsto> \<lparr>mem = None, pval = 1048\<rparr>]\<rparr>"

section \<open>Field projections of the state updates\<close>

lemma set_handle_fields [simp]:
  "handles (set_handle h p s) = (handles s)(h \<mapsto> p)"
  "blocks (set_handle h p s) = blocks s"
  "roots (set_handle h p s) = roots s"
  "active_blocks (set_handle h p s) = active_blocks s"
  "constr_stack (set_handle h p s) = constr_stack s"
  "new_blocks (set_handle h p s) = new_blocks s"
  "destroyed (set_handle h p s) = destroyed s"
  "allocated (set_handle h p s) = allocated s"
  "threshold (set_handle h p s) = threshold s"
  "busy (set_handle h p s) = busy s"
  "owned (set_handle h p s) = owned s"
  by (simp_all add: set_handle_def)

lemma delete_block_fields [simp]:
  "blocks (delete_block b s) = fmdrop b (blocks s)"
  "handles (delete_block b s) = handles s"
  "roots (delete_block b s) = roots s"
  "active_blocks (delete_block b s) = active_blocks s"
  "constr_stack (delete_block b s) = constr_stack s"
  "new_blocks (delete_block b s) = new_blocks s"
  "destroyed (delete_block b s) = destroyed s"
  "allocated (delete_block b s) = allocated s"
  "threshold (delete_block b s) = threshold s"
  "busy (delete_block b s) = busy s"
  "owned (delete_block b s) = owned s"
  by (simp_all add: delete_block_def)

lemma unlink_fields [simp]:
  "roots (unlink h s) = remove1 h (roots s)"
  "destroyed (unlink h s) = destroyed s"
  "blocks (unlink h s) = blocks s"
  "handles (unlink h s) = handles s"
  "active_blocks (unlink h s) = active_blocks s"
  "constr_stack (unlink h s) = constr_stack s"
  "new_blocks (unlink h s) = new_blocks s"
  "allocated (unlink h s) = allocated s"
  "threshold (unlink h s) = threshold s"
  "busy (unlink h s) = busy s"
  "owned (unlink h s) = owned s"
  by (simp_all add: unlink_def remove1_idem)

text \<open>
  The destructors of a run of elements change the roots list and the trace and nothing
  else.
\<close>

lemma fold_unlink_fields [simp]:
  "roots (fold basic_ptr_dtor xs s) = fold remove1 xs (roots s)"
  "destroyed (fold basic_ptr_dtor xs s) = destroyed s"
  "blocks (fold basic_ptr_dtor xs s) = blocks s"
  "handles (fold basic_ptr_dtor xs s) = handles s"
  "active_blocks (fold basic_ptr_dtor xs s) = active_blocks s"
  "constr_stack (fold basic_ptr_dtor xs s) = constr_stack s"
  "new_blocks (fold basic_ptr_dtor xs s) = new_blocks s"
  "allocated (fold basic_ptr_dtor xs s) = allocated s"
  "threshold (fold basic_ptr_dtor xs s) = threshold s"
  "busy (fold basic_ptr_dtor xs s) = busy s"
  "owned (fold basic_ptr_dtor xs s) = owned s"
  by (induction xs arbitrary: s; simp add: basic_ptr_dtor_def)+

lemma destroy_elem_fields [simp]:
  "roots (destroy_elem p i s) = fold remove1 (owned s (p, i)) (roots s)"
  "destroyed (destroy_elem p i s) = destroyed s @ [(p, i)]"
  "blocks (destroy_elem p i s) = blocks s"
  "handles (destroy_elem p i s) = handles s"
  "active_blocks (destroy_elem p i s) = active_blocks s"
  "constr_stack (destroy_elem p i s) = constr_stack s"
  "new_blocks (destroy_elem p i s) = new_blocks s"
  "allocated (destroy_elem p i s) = allocated s"
  "threshold (destroy_elem p i s) = threshold s"
  "busy (destroy_elem p i s) = busy s"
  "owned (destroy_elem p i s) = owned s"
  by (simp_all add: destroy_elem_def)

lemma fold_destroy_elem_fields [simp]:
  "roots (fold (destroy_elem p) js s) = fold remove1 (concat (map (\<lambda>i. owned s (p, i)) js)) (roots s)"
  "destroyed (fold (destroy_elem p) js s) = destroyed s @ map (Pair p) js"
  "blocks (fold (destroy_elem p) js s) = blocks s"
  "handles (fold (destroy_elem p) js s) = handles s"
  "active_blocks (fold (destroy_elem p) js s) = active_blocks s"
  "constr_stack (fold (destroy_elem p) js s) = constr_stack s"
  "new_blocks (fold (destroy_elem p) js s) = new_blocks s"
  "allocated (fold (destroy_elem p) js s) = allocated s"
  "threshold (fold (destroy_elem p) js s) = threshold s"
  "busy (fold (destroy_elem p) js s) = busy s"
  "owned (fold (destroy_elem p) js s) = owned s"
  by (induction js arbitrary: s; simp)+

text \<open>The handles that the destructor of a block header destroys.\<close>

lemma mblock_dtor_fields [simp]:
  "roots (mblock_dtor b mb s) = fold remove1 (dtor_handles s b mb) (roots s)"
  "destroyed (mblock_dtor b mb s) =
     destroyed s @ (if destroy mb then map (Pair (obj b)) [0 ..< unat (nelems mb)] else [])"
  "blocks (mblock_dtor b mb s) = blocks s"
  "handles (mblock_dtor b mb s) = handles s"
  "active_blocks (mblock_dtor b mb s) = active_blocks s"
  "constr_stack (mblock_dtor b mb s) = constr_stack s"
  "new_blocks (mblock_dtor b mb s) = new_blocks s"
  "allocated (mblock_dtor b mb s) = allocated s"
  "threshold (mblock_dtor b mb s) = threshold s"
  "busy (mblock_dtor b mb s) = busy s"
  "owned (mblock_dtor b mb s) = owned s"
  by (simp_all add: mblock_dtor_def ptr_destroy_def dtor_handles_def)

lemma set_fold_remove1: "set (fold remove1 xs ys) \<subseteq> set ys"
proof (induction xs arbitrary: ys)
  case Nil
  show ?case by simp
next
  case (Cons x xs)
  have "set (fold remove1 xs (remove1 x ys)) \<subseteq> set (remove1 x ys)"
    by (rule Cons.IH)
  also have "\<dots> \<subseteq> set ys"
    by (rule set_remove1_subset)
  finally show ?case by simp
qed

lemma fold_remove1_idle: "set xs \<inter> set ys = {} \<Longrightarrow> fold remove1 xs ys = ys"
  by (induction xs arbitrary: ys) (simp_all add: remove1_idem)

lemma set_marked_fields [simp]:
  "blocks (set_marked b mb s) = fmupd b (mb\<lparr>marked := True\<rparr>) (blocks s)"
  "handles (set_marked b mb s) = handles s"
  "roots (set_marked b mb s) = roots s"
  "active_blocks (set_marked b mb s) = active_blocks s"
  "constr_stack (set_marked b mb s) = constr_stack s"
  "new_blocks (set_marked b mb s) = new_blocks s"
  "destroyed (set_marked b mb s) = destroyed s"
  "allocated (set_marked b mb s) = allocated s"
  "threshold (set_marked b mb s) = threshold s"
  "busy (set_marked b mb s) = busy s"
  "owned (set_marked b mb s) = owned s"
  by (simp_all add: set_marked_def)

lemma clear_marked_fields [simp]:
  "blocks (clear_marked b mb s) = fmupd b (mb\<lparr>marked := False\<rparr>) (blocks s)"
  "handles (clear_marked b mb s) = handles s"
  "roots (clear_marked b mb s) = roots s"
  "active_blocks (clear_marked b mb s) = active_blocks s"
  "constr_stack (clear_marked b mb s) = constr_stack s"
  "new_blocks (clear_marked b mb s) = new_blocks s"
  "destroyed (clear_marked b mb s) = destroyed s"
  "allocated (clear_marked b mb s) = allocated s"
  "threshold (clear_marked b mb s) = threshold s"
  "busy (clear_marked b mb s) = busy s"
  "owned (clear_marked b mb s) = owned s"
  by (simp_all add: clear_marked_def)

section \<open>Correctness of mark, sweep and reclaim\<close>

lemma frame_blocks_eq: "frame_blocks s s' \<Longrightarrow> s' = s\<lparr>blocks := blocks s'\<rparr>"
  by (simp add: frame_blocks_def)

lemma more_marked_refl: "more_marked mb mb"
  by (simp add: more_marked_def)

lemma more_marked_trans: "more_marked a b \<Longrightarrow> more_marked b c \<Longrightarrow> more_marked a c"
  by (auto simp: more_marked_def)

lemma marks_more_refl: "marks_more s s"
  by (simp add: marks_more_def frame_blocks_def option.rel_refl more_marked_refl)

lemma marks_more_trans:
  assumes "marks_more s s1" "marks_more s1 s2"
  shows "marks_more s s2"
proof -
  have "rel_option more_marked (fmlookup (blocks s) b) (fmlookup (blocks s2) b)" for b
  proof -
    have "rel_option more_marked (fmlookup (blocks s) b) (fmlookup (blocks s1) b)"
      "rel_option more_marked (fmlookup (blocks s1) b) (fmlookup (blocks s2) b)"
      using assms by (simp_all add: marks_more_def)
    then show ?thesis
      by (auto simp: option_rel_Some1 option_rel_Some2 elim!: option.rel_cases
          intro: more_marked_trans)
  qed
  with assms show ?thesis
    by (simp add: marks_more_def frame_blocks_def)
qed

lemma marks_more_set_marked:
  assumes "fmlookup (blocks s) b = Some mb" "active mb"
  shows "marks_more s (set_marked b mb s)"
  using assms
  by (auto simp: marks_more_def frame_blocks_def more_marked_def option.rel_refl_strong)

lemma mark_marks_more: "mark l s = Some s' \<Longrightarrow> marks_more s s'"
proof (induction l s arbitrary: s' rule: mark.induct)
  case (1 s)
  then show ?case by (simp add: marks_more_refl)
next
  case (2 h list s)
  from "2.prems" obtain p where p: "handles s h = Some p"
    by (auto split: option.splits)
  show ?case
  proof (cases "mem p")
    case None
    with 2 p show ?thesis by simp
  next
    case (Some mb)
    from "2.prems" p Some obtain blk where blk: "fmlookup (blocks s) mb = Some blk"
      by (auto split: option.splits)
    show ?thesis
    proof (cases "active blk \<and> \<not> marked blk")
      case False
      with 2 p Some blk show ?thesis by simp
    next
      case True
      from "2.prems" p Some blk True obtain s1 where
        s1: "mark (members blk) (set_marked mb blk s) = Some s1" and s': "mark list s1 = Some s'"
        by (auto split: option.splits)
      have "marks_more (set_marked mb blk s) s1"
        using "2.IH"(2) p Some blk True s1 by simp
      moreover have "marks_more s1 s'"
        using "2.IH"(3) p Some blk True s1 s' by simp
      moreover have "marks_more s (set_marked mb blk s)"
        using marks_more_set_marked [OF blk] True by simp
      ultimately show ?thesis
        by (blast intro: marks_more_trans)
    qed
  qed
qed

lemma marks_more_lookup:
  assumes "marks_more s s'" "fmlookup (blocks s) b = Some mb"
  shows "\<exists>mb'. fmlookup (blocks s') b = Some mb' \<and> more_marked mb mb'"
proof -
  have "rel_option more_marked (fmlookup (blocks s) b) (fmlookup (blocks s') b)"
    using assms(1) by (simp add: marks_more_def)
  with assms(2) show ?thesis
    by (auto simp: option_rel_Some1)
qed

lemma marks_more_lookup_rev:
  assumes "marks_more s s'" "fmlookup (blocks s') b = Some mb'"
  shows "\<exists>mb. fmlookup (blocks s) b = Some mb \<and> more_marked mb mb'"
proof -
  have "rel_option more_marked (fmlookup (blocks s) b) (fmlookup (blocks s') b)"
    using assms(1) by (simp add: marks_more_def)
  with assms(2) show ?thesis
    by (auto simp: option_rel_Some2)
qed

lemma marks_more_lookup_None:
  assumes "marks_more s s'"
  shows "fmlookup (blocks s') b = None \<longleftrightarrow> fmlookup (blocks s) b = None"
proof -
  have "rel_option more_marked (fmlookup (blocks s) b) (fmlookup (blocks s') b)"
    using assms(1) by (simp add: marks_more_def)
  then show ?thesis
    by (auto elim: option.rel_cases)
qed

lemma marks_more_handles: "marks_more s s' \<Longrightarrow> handles s' = handles s"
  by (simp add: marks_more_def frame_blocks_def)

lemma marks_more_attached: "marks_more s s' \<Longrightarrow> attached s' = attached s"
  by (simp add: attached_def fun_eq_iff marks_more_handles)

lemma marks_more_member_edge:
  assumes mm: "marks_more s s'"
  shows "member_edge s' = member_edge s"
proof -
  have "member_edge s' b b' \<longleftrightarrow> member_edge s b b'" for b b'
  proof
    assume "member_edge s' b b'"
    then obtain mb' h where 1: "fmlookup (blocks s') b = Some mb'" "h \<in> set (members mb')"
      "attached s h b'"
      unfolding member_edge_def marks_more_attached [OF mm] by blast
    from marks_more_lookup_rev [OF mm 1(1)] obtain mb where
      "fmlookup (blocks s) b = Some mb" "more_marked mb mb'" by blast
    with 1 show "member_edge s b b'"
      unfolding member_edge_def more_marked_def by auto
  next
    assume "member_edge s b b'"
    then obtain mb h where 1: "fmlookup (blocks s) b = Some mb" "h \<in> set (members mb)"
      "attached s h b'"
      unfolding member_edge_def by blast
    from marks_more_lookup [OF mm 1(1)] obtain mb' where
      "fmlookup (blocks s') b = Some mb'" "more_marked mb mb'" by blast
    with 1 show "member_edge s' b b'"
      unfolding member_edge_def marks_more_attached [OF mm] more_marked_def by auto
  qed
  then show ?thesis
    by (simp add: fun_eq_iff)
qed

lemma marks_more_valid_handle:
  assumes "marks_more s s'"
  shows "valid_handle s' h = valid_handle s h"
  by (simp add: valid_handle_def marks_more_handles [OF assms] marks_more_lookup_None [OF assms]
      split: option.splits)

lemma marks_more_heap_ok:
  assumes mm: "marks_more s s'" and ok: "heap_ok s"
  shows "heap_ok s'"
  unfolding heap_ok_def
proof (intro allI impI)
  fix b mb' h
  assume l: "fmlookup (blocks s') b = Some mb'" and h: "h \<in> set (members mb')"
  from marks_more_lookup_rev [OF mm l] obtain mb where
    "fmlookup (blocks s) b = Some mb" "more_marked mb mb'" by blast
  with h ok have "valid_handle s h"
    unfolding heap_ok_def more_marked_def by auto
  then show "valid_handle s' h"
    by (simp add: marks_more_valid_handle [OF mm])
qed

lemma marks_more_all_active:
  assumes mm: "marks_more s s'" and aa: "all_active s"
  shows "all_active s'"
  unfolding all_active_def
proof (intro allI impI)
  fix b mb'
  assume l: "fmlookup (blocks s') b = Some mb'"
  from marks_more_lookup_rev [OF mm l] obtain mb where
    "fmlookup (blocks s) b = Some mb" "more_marked mb mb'" by blast
  with aa show "active mb'"
    unfolding all_active_def more_marked_def by auto
qed

lemma marks_more_marked_set:
  assumes mm: "marks_more s s'"
  shows "marked_set s \<subseteq> marked_set s'"
proof
  fix b assume "b \<in> marked_set s"
  then obtain mb where 1: "fmlookup (blocks s) b = Some mb" "marked mb"
    by (auto simp: marked_set_def)
  from marks_more_lookup [OF mm 1(1)] obtain mb' where
    "fmlookup (blocks s') b = Some mb'" "more_marked mb mb'" by blast
  with 1 show "b \<in> marked_set s'"
    by (auto simp: marked_set_def more_marked_def)
qed

lemma mark_total:
  "heap_ok s \<Longrightarrow> \<forall>h\<in>set l. valid_handle s h \<Longrightarrow> \<exists>s'. mark l s = Some s'"
proof (induction l s rule: mark.induct)
  case (1 s)
  then show ?case by simp
next
  case (2 h list s)
  from "2.prems" obtain p where p: "handles s h = Some p"
    by (auto simp: valid_handle_def split: option.splits)
  show ?case
  proof (cases "mem p")
    case None
    have "\<exists>s'. mark list s = Some s'"
      using "2.IH"(1) [OF p None "2.prems"(1)] "2.prems"(2) by simp
    with p None show ?thesis by simp
  next
    case (Some mb)
    from "2.prems" p Some obtain blk where blk: "fmlookup (blocks s) mb = Some blk"
      by (auto simp: valid_handle_def split: option.splits)
    show ?thesis
    proof (cases "active blk \<and> \<not> marked blk")
      case False
      have "\<exists>s'. mark list s = Some s'"
        using "2.IH"(4) [OF p Some blk False "2.prems"(1)] "2.prems"(2) by simp
      with p Some blk False show ?thesis by auto
    next
      case True
      have mm: "marks_more s (set_marked mb blk s)"
        using marks_more_set_marked [OF blk] True by simp
      have ok1: "heap_ok (set_marked mb blk s)"
        using marks_more_heap_ok [OF mm "2.prems"(1)] .
      have "\<forall>h\<in>set (members blk). valid_handle (set_marked mb blk s) h"
        unfolding marks_more_valid_handle [OF mm]
        using "2.prems"(1) blk by (auto simp: heap_ok_def)
      with "2.IH"(2) [OF p Some blk True ok1] obtain s1 where
        s1: "mark (members blk) (set_marked mb blk s) = Some s1"
        by blast
      have mm1: "marks_more s s1"
        using marks_more_trans [OF mm mark_marks_more [OF s1]] .
      have "heap_ok s1"
        using marks_more_heap_ok [OF mm1 "2.prems"(1)] .
      moreover have "\<forall>h\<in>set list. valid_handle s1 h"
        unfolding marks_more_valid_handle [OF mm1] using "2.prems"(2) by simp
      ultimately obtain s' where "mark list s1 = Some s'"
        using "2.IH"(3) [OF p Some blk True s1] by blast
      with p Some blk True s1 show ?thesis by simp
    qed
  qed
qed

lemma marked_set_set_marked:
  "marked_set (set_marked mb blk s) = insert mb (marked_set s)"
  by (auto simp: marked_set_def)

lemma mark_post_skip:
  assumes post: "mark_post list s s'" and mm: "marks_more s s'"
    and h: "\<forall>b. attached s h b \<longrightarrow> b \<in> marked_set s"
  shows "mark_post (h # list) s s'"
proof -
  have "marked_set s \<subseteq> marked_set s'"
    using marks_more_marked_set [OF mm] .
  with post h show ?thesis
    unfolding mark_post_def by (simp; blast)
qed

lemma mark_post_visit:
  assumes p: "handles s h = Some p" "mem p = Some mb"
    and blk: "fmlookup (blocks s) mb = Some blk"
    and un: "\<not> marked blk" and act: "active blk"
    and inner: "mark_post (members blk) (set_marked mb blk s) s1"
    and mm1: "marks_more (set_marked mb blk s) s1"
    and outer: "mark_post list s1 s'"
    and mm2: "marks_more s1 s'"
  shows "mark_post (h # list) s s'"
proof -
  let ?s0 = "set_marked mb blk s"
  have mm0: "marks_more s ?s0"
    using marks_more_set_marked [OF blk act] .
  have mm01: "marks_more s s1"
    using marks_more_trans [OF mm0 mm1] .
  have att: "attached ?s0 = attached s" "attached s1 = attached s"
    using marks_more_attached [OF mm0] marks_more_attached [OF mm01] by simp_all
  have edge: "member_edge ?s0 = member_edge s" "member_edge s1 = member_edge s"
    using marks_more_member_edge [OF mm0] marks_more_member_edge [OF mm01] by simp_all
  have M0: "marked_set ?s0 = insert mb (marked_set s)"
    by (rule marked_set_set_marked)
  have M01: "marked_set ?s0 \<subseteq> marked_set s1"
    using marks_more_marked_set [OF mm1] .
  have M12: "marked_set s1 \<subseteq> marked_set s'"
    using marks_more_marked_set [OF mm2] .
  have hmb: "attached s h b \<longleftrightarrow> b = mb" for b
    using p by (auto simp: attached_def)
  have mb_edge: "member_edge s mb b' \<longleftrightarrow> (\<exists>h'\<in>set (members blk). attached s h' b')" for b'
    using blk by (auto simp: member_edge_def)
  from inner have
    a1: "\<And>h' b. h' \<in> set (members blk) \<Longrightarrow> attached s h' b \<Longrightarrow> b \<in> marked_set s1" and
    c1: "\<And>b b'. b \<in> marked_set s1 \<Longrightarrow> b \<notin> marked_set ?s0 \<Longrightarrow> member_edge s b b' \<Longrightarrow>
           b' \<in> marked_set s1" and
    d1: "\<And>b. b \<in> marked_set s1 \<Longrightarrow> b \<notin> marked_set ?s0 \<Longrightarrow>
           \<exists>h' b0. h' \<in> set (members blk) \<and> attached s h' b0 \<and> (member_edge s)\<^sup>*\<^sup>* b0 b"
    unfolding mark_post_def att edge by blast+
  from outer have
    a2: "\<And>h' b. h' \<in> set list \<Longrightarrow> attached s h' b \<Longrightarrow> b \<in> marked_set s'" and
    c2: "\<And>b b'. b \<in> marked_set s' \<Longrightarrow> b \<notin> marked_set s1 \<Longrightarrow> member_edge s b b' \<Longrightarrow>
           b' \<in> marked_set s'" and
    d2: "\<And>b. b \<in> marked_set s' \<Longrightarrow> b \<notin> marked_set s1 \<Longrightarrow>
           \<exists>h' b0. h' \<in> set list \<and> attached s h' b0 \<and> (member_edge s)\<^sup>*\<^sup>* b0 b"
    unfolding mark_post_def att edge by blast+
  have A: "b \<in> marked_set s'" if "h' \<in> set (h # list)" "attached s h' b" for h' b
  proof (cases "h' = h")
    case True
    with that hmb have "b = mb" by simp
    then show ?thesis using M0 M01 M12 by blast
  next
    case False
    with that a2 show ?thesis by simp
  qed
  have C: "b' \<in> marked_set s'"
    if "b \<in> marked_set s'" "b \<notin> marked_set s" "member_edge s b b'" for b b'
  proof (cases "b \<in> marked_set s1")
    case False
    with that c2 show ?thesis by blast
  next
    case True
    show ?thesis
    proof (cases "b = mb")
      case True
      with that mb_edge obtain h' where "h' \<in> set (members blk)" "attached s h' b'" by blast
      then have "b' \<in> marked_set s1" by (rule a1)
      with M12 show ?thesis by blast
    next
      case False
      with that M0 have "b \<notin> marked_set ?s0" by simp
      from c1 [OF True this that(3)] M12 show ?thesis by blast
    qed
  qed
  have D: "\<exists>h' b0. h' \<in> set (h # list) \<and> attached s h' b0 \<and> (member_edge s)\<^sup>*\<^sup>* b0 b"
    if "b \<in> marked_set s'" "b \<notin> marked_set s" for b
  proof (cases "b \<in> marked_set s1")
    case False
    from d2 [OF that(1) False] show ?thesis by auto
  next
    case True
    show ?thesis
    proof (cases "b = mb")
      case True
      with hmb have "attached s h b" by simp
      then show ?thesis by auto
    next
      case False
      with that M0 have "b \<notin> marked_set ?s0" by simp
      from d1 [OF True this] obtain h' b0 where
        h': "h' \<in> set (members blk)" "attached s h' b0" "(member_edge s)\<^sup>*\<^sup>* b0 b"
        by blast
      then have "member_edge s mb b0"
        using mb_edge by blast
      from this h'(3) have "(member_edge s)\<^sup>*\<^sup>* mb b"
        by (rule converse_rtranclp_into_rtranclp)
      moreover have "attached s h mb"
        using hmb by simp
      ultimately show ?thesis by auto
    qed
  qed
  show ?thesis
    unfolding mark_post_def using A C D by blast
qed

lemma mark_post_holds:
  "mark l s = Some s' \<Longrightarrow> all_active s \<Longrightarrow> mark_post l s s'"
proof (induction l s arbitrary: s' rule: mark.induct)
  case (1 s)
  then show ?case by (simp add: mark_post_def)
next
  case (2 h list s)
  from "2.prems" obtain p where p: "handles s h = Some p"
    by (auto split: option.splits)
  show ?case
  proof (cases "mem p")
    case None
    with "2.prems" p have m: "mark list s = Some s'" by simp
    have "mark_post list s s'"
      using "2.IH"(1) [OF p None m "2.prems"(2)] .
    moreover have "\<forall>b. attached s h b \<longrightarrow> b \<in> marked_set s"
      using p None by (simp add: attached_def)
    ultimately show ?thesis
      using mark_marks_more [OF m] by (intro mark_post_skip)
  next
    case (Some mb)
    from "2.prems" p Some obtain blk where blk: "fmlookup (blocks s) mb = Some blk"
      by (auto split: option.splits)
    show ?thesis
    proof (cases "active blk \<and> \<not> marked blk")
      case False
      with "2.prems" p Some blk have m: "mark list s = Some s'" by auto
      have "mark_post list s s'"
        using "2.IH"(4) [OF p Some blk False m "2.prems"(2)] .
      moreover have "marked blk"
        using False "2.prems"(2) blk by (auto simp: all_active_def)
      then have "\<forall>b. attached s h b \<longrightarrow> b \<in> marked_set s"
        using p Some blk by (auto simp: attached_def marked_set_def)
      ultimately show ?thesis
        using mark_marks_more [OF m] by (intro mark_post_skip)
    next
      case True
      from "2.prems" p Some blk True obtain s1 where
        s1: "mark (members blk) (set_marked mb blk s) = Some s1" and s': "mark list s1 = Some s'"
        by (auto split: option.splits)
      have mm0: "marks_more s (set_marked mb blk s)"
        using marks_more_set_marked [OF blk] True by simp
      have aa0: "all_active (set_marked mb blk s)"
        using marks_more_all_active [OF mm0 "2.prems"(2)] .
      have mm1: "marks_more (set_marked mb blk s) s1"
        using mark_marks_more [OF s1] .
      have aa1: "all_active s1"
        using marks_more_all_active [OF mm1 aa0] .
      have inner: "mark_post (members blk) (set_marked mb blk s) s1"
        using "2.IH"(2) [OF p Some blk True s1 aa0] .
      have outer: "mark_post list s1 s'"
        using "2.IH"(3) [OF p Some blk True s1 s' aa1] .
      show ?thesis
        using mark_post_visit [OF p Some blk _ _ inner mm1 outer mark_marks_more [OF s']] True
        by simp
    qed
  qed
qed

lemma mark_reachable:
  assumes m: "mark (roots s) s = Some s'" and aa: "all_active s" and un: "marked_set s = {}"
  shows "marked_set s' = {b. reachable s b}"
proof -
  from mark_post_holds [OF m aa] have
    a: "\<And>h b. h \<in> set (roots s) \<Longrightarrow> attached s h b \<Longrightarrow> b \<in> marked_set s'" and
    c: "\<And>b b'. b \<in> marked_set s' \<Longrightarrow> member_edge s b b' \<Longrightarrow> b' \<in> marked_set s'" and
    d: "\<And>b. b \<in> marked_set s' \<Longrightarrow>
          \<exists>h b0. h \<in> set (roots s) \<and> attached s h b0 \<and> (member_edge s)\<^sup>*\<^sup>* b0 b"
    unfolding mark_post_def un by blast+
  have "b \<in> marked_set s'" if "reachable s b" for b
  proof -
    from that obtain h b0 where h: "h \<in> set (roots s)" "attached s h b0"
      and path: "(member_edge s)\<^sup>*\<^sup>* b0 b"
      unfolding reachable_def by blast
    from path show ?thesis
    proof (induction rule: rtranclp_induct)
      case base
      from h show ?case by (rule a)
    next
      case (step y z)
      from step.IH step.hyps(2) show ?case by (rule c)
    qed
  qed
  moreover have "reachable s b" if "b \<in> marked_set s'" for b
    using d [OF that] unfolding reachable_def by blast
  ultimately show ?thesis by blast
qed

lemma more_marked_eq:
  "more_marked mb mb' \<Longrightarrow> mb' = mb\<lparr>marked := marked mb'\<rparr>"
  by (simp add: more_marked_def)

lemma mark_blocks_reachable:
  assumes m: "mark (roots s) s = Some s'" and aa: "all_active s" and un: "marked_set s = {}"
    and l: "fmlookup (blocks s) b = Some mb"
  shows "fmlookup (blocks s') b = Some (mb\<lparr>marked := reachable s b\<rparr>)"
proof -
  from marks_more_lookup [OF mark_marks_more [OF m] l] obtain mb' where
    mb': "fmlookup (blocks s') b = Some mb'" "more_marked mb mb'" by blast
  have "marked mb' \<longleftrightarrow> b \<in> marked_set s'"
    using mb'(1) by (simp add: marked_set_def)
  then have "marked mb' \<longleftrightarrow> reachable s b"
    unfolding mark_reachable [OF m aa un] by simp
  with more_marked_eq [OF mb'(2)] mb'(1) show ?thesis by simp
qed

lemma unmarked_update: "\<not> marked mb \<Longrightarrow> mb\<lparr>marked := False\<rparr> = mb"
  by (cases mb) simp

lemma sweep_result:
  assumes "distinct l" "\<forall>b\<in>set l. fmlookup (blocks s) b \<noteq> None"
  shows "\<exists>s2. sweep l act g s =
             Some (rev (filter (\<lambda>b. b \<in> marked_set s) l) @ act,
                   rev (filter (\<lambda>b. b \<notin> marked_set s) l) @ g, s2) \<and>
           frame_blocks s s2 \<and>
           (\<forall>b. fmlookup (blocks s2) b =
                 map_option (\<lambda>mb. if b \<in> set l then mb\<lparr>marked := False\<rparr> else mb)
                   (fmlookup (blocks s) b))"
  using assms
proof (induction l arbitrary: s act g)
  case Nil
  show ?case
    by (simp add: frame_blocks_def option.map_ident)
next
  case (Cons b l)
  from Cons.prems obtain mb where mb: "fmlookup (blocks s) b = Some mb" by auto
  from Cons.prems have bl: "b \<notin> set l" and dl: "distinct l" by simp_all
  show ?case
  proof (cases "marked mb")
    case True
    let ?s1 = "clear_marked b mb s"
    have ms: "marked_set ?s1 = marked_set s - {b}"
      by (auto simp: marked_set_def)
    have f: "filter (\<lambda>x. x \<in> marked_set ?s1) l = filter (\<lambda>x. x \<in> marked_set s) l"
      "filter (\<lambda>x. x \<notin> marked_set ?s1) l = filter (\<lambda>x. x \<notin> marked_set s) l"
      using bl unfolding ms by (auto intro: filter_cong)
    have live: "\<forall>x\<in>set l. fmlookup (blocks ?s1) x \<noteq> None"
      using Cons.prems(2) by simp
    from Cons.IH [OF dl live, of "push b act" g] obtain s2 where
      s2: "sweep l (push b act) g ?s1 =
             Some (rev (filter (\<lambda>x. x \<in> marked_set s) l) @ push b act,
                   rev (filter (\<lambda>x. x \<notin> marked_set s) l) @ g, s2)"
        "frame_blocks ?s1 s2"
        "\<forall>x. fmlookup (blocks s2) x =
                 map_option (\<lambda>mb. if x \<in> set l then mb\<lparr>marked := False\<rparr> else mb)
                   (fmlookup (blocks ?s1) x)"
      unfolding f by blast
    have bm: "b \<in> marked_set s"
      using mb True by (simp add: marked_set_def)
    have "sweep (b # l) act g s =
             Some (rev (filter (\<lambda>x. x \<in> marked_set s) (b # l)) @ act,
                   rev (filter (\<lambda>x. x \<notin> marked_set s) (b # l)) @ g, s2)"
      using mb True s2(1) bm by (simp add: push_def)
    moreover have "frame_blocks s s2"
      using s2(2) by (simp add: frame_blocks_def)
    moreover have "fmlookup (blocks s2) x =
                 map_option (\<lambda>mb. if x \<in> set (b # l) then mb\<lparr>marked := False\<rparr> else mb)
                   (fmlookup (blocks s) x)" for x
      using s2(3) mb bl by (cases "x = b") auto
    ultimately show ?thesis by blast
  next
    case False
    have live: "\<forall>x\<in>set l. fmlookup (blocks s) x \<noteq> None"
      using Cons.prems(2) by simp
    from Cons.IH [OF dl live, of act "push b g"] obtain s2 where
      s2: "sweep l act (push b g) s =
             Some (rev (filter (\<lambda>x. x \<in> marked_set s) l) @ act,
                   rev (filter (\<lambda>x. x \<notin> marked_set s) l) @ push b g, s2)"
        "frame_blocks s s2"
        "\<forall>x. fmlookup (blocks s2) x =
                 map_option (\<lambda>mb. if x \<in> set l then mb\<lparr>marked := False\<rparr> else mb)
                   (fmlookup (blocks s) x)"
      by blast
    have bm: "b \<notin> marked_set s"
      using mb False by (simp add: marked_set_def)
    have "sweep (b # l) act g s =
             Some (rev (filter (\<lambda>x. x \<in> marked_set s) (b # l)) @ act,
                   rev (filter (\<lambda>x. x \<notin> marked_set s) (b # l)) @ g, s2)"
      using mb False s2(1) bm by (simp add: push_def)
    moreover have "fmlookup (blocks s2) x =
                 map_option (\<lambda>mb. if x \<in> set (b # l) then mb\<lparr>marked := False\<rparr> else mb)
                   (fmlookup (blocks s) x)" for x
      using s2(3) mb bl False by (cases "x = b") (auto simp: unmarked_update)
    ultimately show ?thesis
      using s2(2) by blast
  qed
qed

lemma reclaim_result:
  assumes "distinct g" "\<forall>b\<in>set g. fmlookup (blocks s) b \<noteq> None"
  shows "\<exists>s3. reclaim g f s = Some (f + sum_list (map (objsize_of s) g), s3) \<and>
           frame_reclaim s s3 \<and> blocks s3 = fmdrop_set (set g) (blocks s)"
  using assms
proof (induction g arbitrary: s f)
  case Nil
  show ?case by (simp add: frame_reclaim_def)
next
  case (Cons b g)
  from Cons.prems obtain mb where mb: "fmlookup (blocks s) b = Some mb" by auto
  from Cons.prems have bg: "b \<notin> set g" and dg: "distinct g" by simp_all
  let ?s1 = "delete_block b (mblock_dtor b mb s)"
  have live: "\<forall>x\<in>set g. fmlookup (blocks ?s1) x \<noteq> None"
    using Cons.prems(2) bg by auto
  have sz: "map (objsize_of ?s1) g = map (objsize_of s) g"
    using bg by (auto simp: objsize_of_def)
  from Cons.IH [OF dg live, of "f + objsize mb"] obtain s3 where
    s3: "reclaim g (f + objsize mb) ?s1 = Some (f + objsize mb + sum_list (map (objsize_of s) g), s3)"
      "frame_reclaim ?s1 s3" "blocks s3 = fmdrop_set (set g) (blocks ?s1)"
    unfolding sz by blast
  have "reclaim (b # g) f s = Some (f + sum_list (map (objsize_of s) (b # g)), s3)"
    using mb s3(1) by (simp add: objsize_of_def add.assoc)
  moreover have "frame_reclaim s s3"
    using s3(2) set_fold_remove1 [of "dtor_handles s b mb" "roots s"]
    by (auto simp: frame_reclaim_def)
  moreover have "blocks s3 = fmdrop_set (set (b # g)) (blocks s)"
    using s3(3) by simp
  ultimately show ?case by blast
qed

lemma quiescent_block:
  assumes q: "quiescent s" and l: "fmlookup (blocks s) b = Some mb"
  shows "active mb \<and> \<not> marked mb \<and> (\<forall>h\<in>set (members mb). valid_handle s h)"
proof -
  have "b \<in> fmdom' (blocks s)"
    using l by (rule fmdom'I)
  then have "b \<in> set (active_blocks s)"
    using q by (simp add: quiescent_def)
  moreover have "\<forall>x\<in>set (active_blocks s). valid_block s x"
    using q by (simp add: quiescent_def list_all_iff)
  ultimately have "valid_block s b" by blast
  then show ?thesis
    using l by (simp add: valid_block_def list_all_iff)
qed

lemma quiescent_all_active: "quiescent s \<Longrightarrow> all_active s"
  unfolding all_active_def using quiescent_block by blast

lemma quiescent_unmarked: "quiescent s \<Longrightarrow> marked_set s = {}"
  unfolding marked_set_def using quiescent_block by blast

lemma quiescent_heap_ok: "quiescent s \<Longrightarrow> heap_ok s"
  unfolding heap_ok_def using quiescent_block by blast

lemma quiescent_roots: "quiescent s \<Longrightarrow> \<forall>h\<in>set (roots s). valid_handle s h"
  by (simp add: quiescent_def list_all_iff)

lemma begin_gc_attached [simp]: "attached (s\<lparr>busy := x, allocated := y\<rparr>) = attached s"
  by (simp add: fun_eq_iff attached_def)

lemma begin_gc_member_edge [simp]: "member_edge (s\<lparr>busy := x, allocated := y\<rparr>) = member_edge s"
  by (simp add: fun_eq_iff member_edge_def)

lemma begin_gc_reachable [simp]: "reachable (s\<lparr>busy := x, allocated := y\<rparr>) = reachable s"
  by (simp add: fun_eq_iff reachable_def)

lemma begin_gc_valid_handle [simp]:
  "valid_handle (s\<lparr>busy := x, allocated := y\<rparr>) = valid_handle s"
  by (simp add: fun_eq_iff valid_handle_def split: option.splits)

lemma begin_gc_heap_ok [simp]: "heap_ok (s\<lparr>busy := x, allocated := y\<rparr>) = heap_ok s"
  by (simp add: heap_ok_def)

lemma begin_gc_all_active [simp]: "all_active (s\<lparr>busy := x, allocated := y\<rparr>) = all_active s"
  by (simp add: all_active_def)

lemma begin_gc_marked_set [simp]: "marked_set (s\<lparr>busy := x, allocated := y\<rparr>) = marked_set s"
  by (simp add: marked_set_def)

lemma objsize_of_blocks: "blocks s' = blocks s \<Longrightarrow> objsize_of s' = objsize_of s"
  by (simp add: fun_eq_iff objsize_of_def)

lemma collect_quiescent:
  assumes q: "quiescent s"
  shows "\<exists>freed s'. collect s = Some (freed, s') \<and>
     blocks s' = fmdrop_set {b. \<not> reachable s b} (blocks s) \<and>
     active_blocks s' = rev (filter (reachable s) (active_blocks s)) \<and>
     freed = sum_list (map (objsize_of s) (rev (filter (\<lambda>b. \<not> reachable s b) (active_blocks s)))) \<and>
     set (roots s') \<subseteq> set (roots s) \<and> handles s' = handles s \<and> constr_stack s' = [] \<and>
     new_blocks s' = [] \<and> \<not> busy s' \<and> allocated s' = 0 \<and> threshold s' = threshold s \<and>
     owned s' = owned s"
proof -
  let ?s0 = "s\<lparr>busy := True, allocated := 0\<rparr>"
  let ?l = "active_blocks s"
  let ?act = "rev (filter (reachable s) ?l)"
  let ?garbage = "rev (filter (\<lambda>b. \<not> reachable s b) ?l)"
  have nb: "\<not> busy s" and cs: "constr_stack s = []" and nw: "new_blocks s = []"
    and dl: "distinct ?l" and sl: "set ?l = fmdom' (blocks s)"
    using q by (simp_all add: quiescent_def)
  have aa0: "all_active ?s0" and un0: "marked_set ?s0 = {}" and ok0: "heap_ok ?s0"
    using quiescent_all_active [OF q] quiescent_unmarked [OF q] quiescent_heap_ok [OF q]
    by simp_all
  have r0: "\<forall>h\<in>set (roots ?s0). valid_handle ?s0 h"
    using quiescent_roots [OF q] by simp
  from mark_total [OF ok0 r0] obtain s1 where m: "mark (roots ?s0) ?s0 = Some s1" by blast
  have mm: "marks_more ?s0 s1"
    using mark_marks_more [OF m] .
  then have f1: "frame_blocks ?s0 s1"
    by (simp add: marks_more_def)
  have M1: "marked_set s1 = {b. reachable s b}"
    using mark_reachable [OF m aa0 un0] by simp
  have live: "fmlookup (blocks s) b \<noteq> None" if "b \<in> set ?l" for b
    using that sl by (auto simp: fmlookup_dom'_iff)
  have live1: "\<forall>b\<in>set (active_blocks s1). fmlookup (blocks s1) b \<noteq> None"
    using live f1 marks_more_lookup_None [OF mm] by (simp add: frame_blocks_def)
  have dl1: "distinct (active_blocks s1)"
    using dl f1 by (simp add: frame_blocks_def)
  from sweep_result [OF dl1 live1, of "[]" "[]"] obtain s2 where
    sw: "sweep (active_blocks s1) [] [] s1 = Some (?act, ?garbage, s2)"
    and f2: "frame_blocks s1 s2"
    and b2: "\<And>b. fmlookup (blocks s2) b =
                 map_option (\<lambda>mb. if b \<in> set ?l then mb\<lparr>marked := False\<rparr> else mb)
                   (fmlookup (blocks s1) b)"
    unfolding M1 using f1 by (auto simp: frame_blocks_def)
  have "fmlookup (blocks s2) b = fmlookup (blocks s) b" for b
  proof (cases "fmlookup (blocks s) b")
    case None
    then have "fmlookup (blocks s1) b = None"
      using marks_more_lookup_None [OF mm, of b] by simp
    with None b2 [of b] show ?thesis by simp
  next
    case (Some mb)
    then have "b \<in> set ?l"
      using sl by (simp add: fmdom'I)
    moreover have "fmlookup (blocks s1) b = Some (mb\<lparr>marked := reachable s b\<rparr>)"
      using mark_blocks_reachable [OF m aa0 un0, of b mb] Some by simp
    moreover have "\<not> marked mb"
      using quiescent_block [OF q Some] by simp
    ultimately show ?thesis
      using Some b2 [of b] by (simp add: unmarked_update)
  qed
  then have bs2: "blocks s2 = blocks s"
    by (rule fmap_ext)
  let ?s2 = "s2\<lparr>active_blocks := ?act\<rparr>"
  have dg: "distinct ?garbage"
    using dl by simp
  have lg: "\<forall>b\<in>set ?garbage. fmlookup (blocks ?s2) b \<noteq> None"
    using live bs2 by simp
  from reclaim_result [OF dg lg, of 0] obtain s3 where
    rc: "reclaim ?garbage 0 ?s2 = Some (sum_list (map (objsize_of s) ?garbage), s3)"
    and f3: "frame_reclaim ?s2 s3"
    and b3: "blocks s3 = fmdrop_set (set ?garbage) (blocks s)"
    using objsize_of_blocks [of ?s2 s] bs2 by auto
  have c: "collect s = Some (sum_list (map (objsize_of s) ?garbage), s3\<lparr>busy := False\<rparr>)"
    using nb m sw rc by (simp add: collect_def gc_def)
  have "fmlookup (fmdrop_set (set ?garbage) (blocks s)) b =
        fmlookup (fmdrop_set {b. \<not> reachable s b} (blocks s)) b" for b
    using sl by (auto simp: fmlookup_dom'_iff)
  then have "fmdrop_set (set ?garbage) (blocks s) = fmdrop_set {b. \<not> reachable s b} (blocks s)"
    by (rule fmap_ext)
  with b3 have b3': "blocks s3 = fmdrop_set {b. \<not> reachable s b} (blocks s)" by simp
  show ?thesis
    using c b3' f1 f2 f3 cs nw
    by (simp add: frame_blocks_def frame_reclaim_def)
qed

section \<open>Collection of a quiescent state\<close>












lemma collect_cycle_garbage:
  "collect (cycle_state None) =
     Some (24, (cycle_state None)\<lparr>active_blocks := [], blocks := fmempty,
                 destroyed := [(1048, 0), (2048, 0), (3048, 0)]\<rparr>)"
  by (simp add: collect_def gc_def cycle_state_def initial_state_def ex_block_def push_def
      mblock_dtor_def delete_block_def clear_marked_def set_marked_def ptr_destroy_def
      destroy_elem_def basic_ptr_dtor_def unlink_def obj_def mblock_size_def fmdrop_fmupd)


lemma reachable_root: "h \<in> set (roots s) \<Longrightarrow> attached s h b \<Longrightarrow> reachable s b"
  unfolding reachable_def by blast

lemma reachable_step: "reachable s b \<Longrightarrow> member_edge s b b' \<Longrightarrow> reachable s b'"
  unfolding reachable_def by (blast intro: rtranclp.rtrancl_into_rtrancl)


lemma valid_handle_retained:
  assumes h: "handles s' = handles s"
    and k: "\<forall>b. reachable s b \<longrightarrow> fmlookup (blocks s') b = fmlookup (blocks s) b"
    and v: "valid_handle s x"
    and r: "\<forall>b. attached s x b \<longrightarrow> reachable s b"
  shows "valid_handle s' x"
proof -
  from v obtain p where p: "handles s x = Some p"
    by (auto simp: valid_handle_def split: option.splits)
  show ?thesis
  proof (cases "mem p")
    case None
    with p h show ?thesis by (simp add: valid_handle_def)
  next
    case (Some b)
    with p have "attached s x b" by (simp add: attached_def)
    with r k have "fmlookup (blocks s') b = fmlookup (blocks s) b" by simp
    moreover have "fmlookup (blocks s) b \<noteq> None"
      using v p Some by (simp add: valid_handle_def)
    ultimately show ?thesis
      using p Some h by (simp add: valid_handle_def)
  qed
qed

lemma collect_keeps_quiescent:
  assumes q: "quiescent s" and c: "collect s = Some (freed, s')"
  shows "quiescent s'"
proof -
  from collect_quiescent [OF q] c have
    b: "blocks s' = fmdrop_set {b. \<not> reachable s b} (blocks s)"
    and a: "active_blocks s' = rev (filter (reachable s) (active_blocks s))"
    and r: "set (roots s') \<subseteq> set (roots s)" and h: "handles s' = handles s"
    and rest: "constr_stack s' = []" "new_blocks s' = []" "\<not> busy s'"
    by auto
  have dl: "distinct (active_blocks s)" and sl: "set (active_blocks s) = fmdom' (blocks s)"
    using q by (simp_all add: quiescent_def)
  have k: "\<forall>b. reachable s b \<longrightarrow> fmlookup (blocks s') b = fmlookup (blocks s) b"
    unfolding b by simp
  have d: "distinct (active_blocks s')"
    unfolding a using dl by simp
  have sa: "set (active_blocks s') = fmdom' (blocks s')"
    unfolding a b using sl by auto
  have vr: "valid_handle s' x" if "x \<in> set (roots s')" for x
  proof -
    from that r have x: "x \<in> set (roots s)" by (rule subsetD [rotated])
    then have "valid_handle s x"
      using quiescent_roots [OF q] by blast
    moreover have "\<forall>b. attached s x b \<longrightarrow> reachable s b"
      using x by (blast intro: reachable_root)
    ultimately show ?thesis
      by (rule valid_handle_retained [OF h k])
  qed
  have vb: "valid_block s' x" if "x \<in> set (active_blocks s')" for x
  proof -
    from that have rx: "reachable s x" and xl: "x \<in> set (active_blocks s)"
      unfolding a by simp_all
    from xl sl obtain mb where mb: "fmlookup (blocks s) x = Some mb"
      by (auto simp: fmlookup_dom'_iff)
    from rx k mb have mb': "fmlookup (blocks s') x = Some mb" by simp
    have mbp: "active mb" "\<not> marked mb" "\<forall>y\<in>set (members mb). valid_handle s y"
      using quiescent_block [OF q mb] by simp_all
    have "valid_handle s' y" if y: "y \<in> set (members mb)" for y
    proof -
      have "valid_handle s y" using mbp(3) y by blast
      moreover have "\<forall>b. attached s y b \<longrightarrow> reachable s b"
      proof (intro allI impI)
        fix b assume "attached s y b"
        with mb y have "member_edge s x b"
          unfolding member_edge_def by blast
        with rx show "reachable s b" by (rule reachable_step)
      qed
      ultimately show ?thesis
        by (rule valid_handle_retained [OF h k])
    qed
    with mb' mbp show ?thesis
      by (simp add: valid_block_def list_all_iff)
  qed
  show "quiescent s'"
    unfolding quiescent_def list_all_iff
    using rest d sa vr vb by blast
qed









section \<open>Blocks under construction\<close>
























section \<open>Operations between quiescent states\<close>

text \<open>
  The initial state is quiescent, and the operations of the handle interface that
  run to completion outside a constructor lead from quiescent states to quiescent
  states: a collection, detaching, assigning a valid handle, constructing a handle, and
  an allocation whose elements need no constructor.
\<close>

lemma quiescent_initial_state: "quiescent initial_state"
  by (simp add: quiescent_def initial_state_def)

lemma valid_handle_set_handle:
  assumes "\<forall>b. mem p = Some b \<longrightarrow> fmlookup (blocks s) b \<noteq> None"
  shows "valid_handle (set_handle h p s) x \<longleftrightarrow> x = h \<or> valid_handle s x"
  using assms by (auto simp: valid_handle_def split: option.splits)

lemma quiescent_set_handle:
  assumes q: "quiescent s"
    and p: "\<forall>b. mem p = Some b \<longrightarrow> fmlookup (blocks s) b \<noteq> None"
  shows "quiescent (set_handle h p s)"
proof -
  have vb: "valid_block (set_handle h p s) x" if "valid_block s x" for x
    using that by (auto simp: valid_block_def list_all_iff valid_handle_set_handle [OF p]
        split: option.splits)
  show ?thesis
    using q vb unfolding quiescent_def list_all_iff
    by (simp add: valid_handle_set_handle [OF p])
qed

lemma detach_quiescent:
  "quiescent s \<Longrightarrow> handles s h = Some p \<Longrightarrow>
     \<exists>s'. detach h s = Some s' \<and> quiescent s'"
  by (simp add: detach_def quiescent_set_handle)

lemma assign_quiescent:
  assumes q: "quiescent s" and h: "handles s h = Some this" and v: "valid_handle s src"
  shows "\<exists>s'. assign h src s = Some s' \<and> quiescent s'"
proof -
  from v obtain p where p: "handles s src = Some p"
    and t: "\<forall>b. mem p = Some b \<longrightarrow> fmlookup (blocks s) b \<noteq> None"
    by (auto simp: valid_handle_def split: option.splits)
  have "quiescent (set_handle h (this\<lparr>mem := mem p, pval := pval p\<rparr>) s)"
    using t by (intro quiescent_set_handle [OF q]) simp
  with h p show ?thesis
    by (simp add: assign_def)
qed

lemma basic_ptr_default_quiescent:
  assumes q: "quiescent s"
  shows "\<exists>s'. basic_ptr_default h s = Some s' \<and> quiescent s' \<and> roots s' = h # roots s"
proof -
  have st: "constr_stack s = []"
    using q by (simp add: quiescent_def)
  let ?s1 = "set_handle h \<lparr>mem = None, pval = 0\<rparr> s"
  have q1: "quiescent ?s1"
    by (intro quiescent_set_handle [OF q]) simp
  have e: "basic_ptr_default h s = Some (?s1\<lparr>roots := h # roots ?s1\<rparr>)"
    using st by (simp add: basic_ptr_default_def link_def)
  have vh: "valid_handle (?s1\<lparr>roots := r\<rparr>) = valid_handle ?s1" for r
    by (simp add: fun_eq_iff valid_handle_def split: option.splits)
  have vb: "valid_block (?s1\<lparr>roots := r\<rparr>) = valid_block ?s1" for r
    by (simp add: fun_eq_iff valid_block_def vh split: option.splits)
  have "valid_handle ?s1 h"
    by (simp add: valid_handle_def)
  with q1 have "quiescent (?s1\<lparr>roots := h # roots ?s1\<rparr>)"
    unfolding quiescent_def by (simp add: vh vb)
  with e show ?thesis by simp
qed

lemma gc_quiescent:
  assumes q: "quiescent s"
  shows "\<exists>f s0. gc u s = Some (f, s0) \<and> quiescent s0 \<and>
           fmdom' (blocks s0) \<subseteq> fmdom' (blocks s) \<and>
           handles s0 = handles s \<and> set (roots s0) \<subseteq> set (roots s)"
proof (cases "busy s \<or> (\<not> u \<and> allocated s < threshold s)")
  case True
  with q show ?thesis by (auto simp: gc_def)
next
  case False
  then have g: "gc u s = collect s"
    by (auto simp: gc_def collect_def)
  from collect_quiescent [OF q] obtain f s0 where
    c: "collect s = Some (f, s0)"
    and b: "blocks s0 = fmdrop_set {b. \<not> reachable s b} (blocks s)"
    and r: "set (roots s0) \<subseteq> set (roots s)" and h: "handles s0 = handles s"
    by blast
  from collect_keeps_quiescent [OF q c] have "quiescent s0" .
  moreover have "fmdom' (blocks s0) \<subseteq> fmdom' (blocks s)"
    unfolding b by auto
  ultimately show ?thesis
    using g c r h by simp
qed

lemma valid_handle_extend:
  assumes "valid_handle s0 y" "handles s' y = handles s0 y"
    "\<forall>b. fmlookup (blocks s0) b \<noteq> None \<longrightarrow> fmlookup (blocks s') b \<noteq> None"
  shows "valid_handle s' y"
  using assms by (auto simp: valid_handle_def split: option.splits)

lemma alloc_array_quiescent:
  assumes q: "quiescent s" and h: "handles s h = Some this"
    and fresh: "a \<notin> fmdom' (blocks s)" and nd: "\<not> use_default_constructor T"
  shows "\<exists>s'. alloc_array T h n z ctor (Some a) s = (None, s') \<and> quiescent s' \<and>
           handles s' h = Some \<lparr>mem = Some a, pval = obj a\<rparr> \<and>
           fmlookup (blocks s') a =
             Some ((mblock_ctor n (n * word_of_nat (sizeof T)) (destr T))\<lparr>active := True\<rparr>) \<and>
           a \<in> set (active_blocks s')"
proof -
  let ?mb = "mblock_ctor n (n * word_of_nat (sizeof T)) (destr T)"
  from gc_quiescent [OF q, of False] obtain f s0 where
    g: "gc False s = Some (f, s0)" and q0: "quiescent s0"
    and d0: "fmdom' (blocks s0) \<subseteq> fmdom' (blocks s)"
    and h0: "handles s0 = handles s"
    by blast
  have st0: "constr_stack s0 = []" "new_blocks s0 = []" "\<not> busy s0"
    "distinct (active_blocks s0)" "set (active_blocks s0) = fmdom' (blocks s0)"
    using q0 by (simp_all add: quiescent_def)
  have fresh0: "a \<notin> fmdom' (blocks s0)" "a \<notin> set (active_blocks s0)"
    using fresh d0 st0(5) by auto
  let ?s3 = "set_handle h \<lparr>mem = Some a, pval = obj a\<rparr>
               (s0\<lparr>blocks := fmupd a ?mb (blocks s0), constr_stack := [a]\<rparr>)"
  have b: "alloc_begin h n (word_of_nat (sizeof T)) (destr T) z (Some a) s = (Inr (obj a), ?s3)"
    using g h h0 st0(1) by (simp add: alloc_begin_def Let_def push_def)
  let ?s' = "?s3\<lparr>constr_stack := [], allocated := allocated s0 + objsize ?mb,
                  blocks := fmupd a (?mb\<lparr>active := True\<rparr>) (blocks ?s3), new_blocks := [],
                  active_blocks := a # active_blocks s0\<rparr>"
  have e: "alloc_end h n ?s3 = Some ?s'"
    using st0(2) by (simp add: alloc_end_def Let_def push_def mblock_ctor_def)
  have r: "alloc_array T h n z ctor (Some a) s = (None, ?s')"
    using b e nd by (simp add: alloc_array_def try_end_def)
  have live: "\<forall>b. fmlookup (blocks s0) b \<noteq> None \<longrightarrow> fmlookup (blocks ?s') b \<noteq> None"
    by simp
  have vh: "valid_handle ?s' y" if "valid_handle s0 y" for y
  proof (cases "y = h")
    case True
    then show ?thesis by (simp add: valid_handle_def)
  next
    case False
    then have hy: "handles ?s' y = handles s0 y" by simp
    from that hy live show ?thesis by (rule valid_handle_extend)
  qed
  have vb: "valid_block ?s' x" if x: "x \<in> set (a # active_blocks s0)" for x
  proof (cases "x = a")
    case True
    then show ?thesis by (simp add: valid_block_def mblock_ctor_def)
  next
    case False
    with x have xl: "x \<in> set (active_blocks s0)" by simp
    then have "valid_block s0 x"
      using q0 by (simp add: quiescent_def list_all_iff)
    then obtain mb where mb: "fmlookup (blocks s0) x = Some mb" "active mb" "\<not> marked mb"
      "\<forall>y\<in>set (members mb). valid_handle s0 y"
      by (auto simp: valid_block_def list_all_iff split: option.splits)
    then have "\<forall>y\<in>set (members mb). valid_handle ?s' y"
      using vh by blast
    with mb False show ?thesis
      by (simp add: valid_block_def list_all_iff)
  qed
  have vr: "valid_handle ?s' y" if "y \<in> set (roots ?s')" for y
  proof -
    from that have "y \<in> set (roots s0)" by simp
    then have "valid_handle s0 y"
      using quiescent_roots [OF q0] by blast
    then show ?thesis by (rule vh)
  qed
  have "quiescent ?s'"
    unfolding quiescent_def list_all_iff
    using st0 fresh0 vb vr by simp
  with r show ?thesis
    by (intro exI [of _ ?s']) simp
qed

text \<open>
  The first scenario of the demonstration program: after \<open>p.alloc_array(4)\<close> a
  collection frees nothing while \<open>p\<close> is attached, and \<open>p.detach()\<close> followed by a
  collection frees the 16 bytes of the array.
\<close>

lemma scenario_array_attached: "collect array_state = Some (0, array_state\<lparr>allocated := 0\<rparr>)"
  by (simp add: collect_def gc_def array_state_def handle_state_def initial_state_def push_def
      set_marked_def clear_marked_def)

lemma scenario_array_detached:
  "detach 10 array_state =
     Some (array_state\<lparr>handles := [10 \<mapsto> \<lparr>mem = None, pval = obj 1000\<rparr>]\<rparr>)"
  "collect (array_state\<lparr>handles := [10 \<mapsto> \<lparr>mem = None, pval = obj 1000\<rparr>]\<rparr>) =
     Some (16, handle_state\<lparr>handles := [10 \<mapsto> \<lparr>mem = None, pval = obj 1000\<rparr>]\<rparr>)"
  by (simp_all add: detach_def collect_def gc_def array_state_def handle_state_def
      initial_state_def push_def set_handle_def mblock_dtor_def delete_block_def fmdrop_fmupd)

section \<open>Handle operations\<close>

lemma link_handles: "link h s = Some s' \<Longrightarrow> handles s' = handles s"
  by (auto simp: link_def split: list.splits option.splits if_splits)

lemma ref_add_mem:
  "handles s p = Some src \<Longrightarrow>
     \<exists>s'. ref_add T p n s = Some s' \<and> map_option mem (handles s' p) = Some (mem src)"
  by (simp add: ref_add_def set_handle_def)

lemma basic_ptr_copy_mem:
  "handles s p = Some src \<Longrightarrow> basic_ptr_copy r p s = Some s' \<Longrightarrow>
     map_option mem (handles s' r) = Some (mem src) \<and>
     map_option mem (handles s' p) = Some (mem src)"
  by (auto simp: basic_ptr_copy_def set_handle_def dest!: link_handles)

lemma basic_ptr_from_mem:
  "handles s p = Some src \<Longrightarrow> basic_ptr_from r p v s = Some s' \<Longrightarrow>
     map_option mem (handles s' r) = Some (mem src) \<and>
     map_option mem (handles s' p) = Some (mem src)"
  by (auto simp: basic_ptr_from_def set_handle_def dest!: link_handles)

lemma assign_mem:
  "handles s p = Some src \<Longrightarrow> handles s q = Some this \<Longrightarrow>
     \<exists>s'. assign q p s = Some s' \<and>
          map_option mem (handles s' q) = map_option mem (handles s' p) \<and>
          map_option mem (handles s' q) = Some (mem src) \<and>
          roots s' = roots s \<and> blocks s' = blocks s"
  by (auto simp: assign_def set_handle_def)

lemma copy_then_ref_add_mem:
  assumes p: "handles s p = Some src"
    and c: "basic_ptr_copy r p s = Some s1" and a: "ref_add T p n s1 = Some s'"
  shows "map_option mem (handles s' r) = Some (mem src) \<and>
         map_option mem (handles s' p) = Some (mem src)"
proof -
  from basic_ptr_copy_mem [OF p c] obtain q1 where
    q1: "handles s1 p = Some q1" "mem q1 = mem src"
    and r1: "map_option mem (handles s1 r) = Some (mem src)"
    by auto
  from a q1 have s': "s' = set_handle p (q1\<lparr>pval := pval q1 + n * int (sizeof T)\<rparr>) s1"
    by (simp add: ref_add_def)
  show ?thesis
    using q1 r1 by (auto simp: s' set_handle_def)
qed

text \<open>
  Claim C7.  Copy assignment \<open>q = p\<close> gives \<open>q\<close> the block of \<open>p\<close> and leaves the
  roots list and every block (so every members list) as they were: \<open>q\<close> stays in its
  population.  The handle built by \<open>p + i\<close> or \<open>p - i\<close> has the block of \<open>p\<close>, and
  \<open>++\<close>, \<open>--\<close>, \<open>+=\<close>, \<open>-=\<close> in prefix and postfix form leave the block of \<open>p\<close>
  unchanged.
\<close>

theorem attachment_preserved:
  assumes p: "handles s p = Some src"
  shows "(\<forall>this. handles s q = Some this \<longrightarrow>
            (\<exists>s'. assign q p s = Some s' \<and>
                  map_option mem (handles s' q) = map_option mem (handles s' p) \<and>
                  map_option mem (handles s' q) = Some (mem src) \<and>
                  roots s' = roots s \<and> blocks s' = blocks s)) \<and>
    (\<forall>s'. ptr_plus T p i r s = Some s' \<longrightarrow>
            map_option mem (handles s' r) = Some (mem src) \<and>
            map_option mem (handles s' p) = Some (mem src)) \<and>
    (\<forall>s'. ptr_minus T p i r s = Some s' \<longrightarrow>
            map_option mem (handles s' r) = Some (mem src) \<and>
            map_option mem (handles s' p) = Some (mem src)) \<and>
    (\<exists>s'. ptr_pre_inc T p s = Some s' \<and> map_option mem (handles s' p) = Some (mem src)) \<and>
    (\<exists>s'. ptr_pre_dec T p s = Some s' \<and> map_option mem (handles s' p) = Some (mem src)) \<and>
    (\<exists>s'. ptr_add_assign T p i s = Some s' \<and> map_option mem (handles s' p) = Some (mem src)) \<and>
    (\<exists>s'. ptr_sub_assign T p i s = Some s' \<and> map_option mem (handles s' p) = Some (mem src)) \<and>
    (\<forall>s'. ptr_post_inc T p r s = Some s' \<longrightarrow>
            map_option mem (handles s' r) = Some (mem src) \<and>
            map_option mem (handles s' p) = Some (mem src)) \<and>
    (\<forall>s'. ptr_post_dec T p r s = Some s' \<longrightarrow>
            map_option mem (handles s' r) = Some (mem src) \<and>
            map_option mem (handles s' p) = Some (mem src))"
proof (intro conjI)
  show "\<forall>this. handles s q = Some this \<longrightarrow>
            (\<exists>s'. assign q p s = Some s' \<and>
                  map_option mem (handles s' q) = map_option mem (handles s' p) \<and>
                  map_option mem (handles s' q) = Some (mem src) \<and>
                  roots s' = roots s \<and> blocks s' = blocks s)"
    using assign_mem [OF p] by blast
  show "\<forall>s'. ptr_plus T p i r s = Some s' \<longrightarrow>
            map_option mem (handles s' r) = Some (mem src) \<and>
            map_option mem (handles s' p) = Some (mem src)"
    using p basic_ptr_from_mem [OF p] by (simp add: ptr_plus_def)
  show "\<forall>s'. ptr_minus T p i r s = Some s' \<longrightarrow>
            map_option mem (handles s' r) = Some (mem src) \<and>
            map_option mem (handles s' p) = Some (mem src)"
    using p basic_ptr_from_mem [OF p] by (simp add: ptr_minus_def)
  show "\<exists>s'. ptr_pre_inc T p s = Some s' \<and> map_option mem (handles s' p) = Some (mem src)"
    using ref_add_mem [OF p] unfolding ptr_pre_inc_def by blast
  show "\<exists>s'. ptr_pre_dec T p s = Some s' \<and> map_option mem (handles s' p) = Some (mem src)"
    using ref_add_mem [OF p] unfolding ptr_pre_dec_def by blast
  show "\<exists>s'. ptr_add_assign T p i s = Some s' \<and> map_option mem (handles s' p) = Some (mem src)"
    using ref_add_mem [OF p] unfolding ptr_add_assign_def by blast
  show "\<exists>s'. ptr_sub_assign T p i s = Some s' \<and> map_option mem (handles s' p) = Some (mem src)"
    using ref_add_mem [OF p] unfolding ptr_sub_assign_def by blast
  show "\<forall>s'. ptr_post_inc T p r s = Some s' \<longrightarrow>
            map_option mem (handles s' r) = Some (mem src) \<and>
            map_option mem (handles s' p) = Some (mem src)"
    using copy_then_ref_add_mem [OF p] by (auto simp: ptr_post_inc_def split: option.splits)
  show "\<forall>s'. ptr_post_dec T p r s = Some s' \<longrightarrow>
            map_option mem (handles s' r) = Some (mem src) \<and>
            map_option mem (handles s' p) = Some (mem src)"
    using copy_then_ref_add_mem [OF p] by (auto simp: ptr_post_dec_def split: option.splits)
qed

theorem attachment_preserved_witness:
  "handles (cycle_state (Some 1000)) 10 = Some \<lparr>mem = Some 1000, pval = 1048\<rparr> \<and>
   handles (cycle_state (Some 1000)) 1048 = Some \<lparr>mem = Some 2000, pval = 2048\<rparr> \<and>
   map_option (\<lambda>s'. handles s' 1048) (assign 1048 10 (cycle_state (Some 1000))) =
     Some (Some \<lparr>mem = Some 1000, pval = 1048\<rparr>) \<and>
   map_option (\<lambda>s'. roots s') (assign 1048 10 (cycle_state (Some 1000))) = Some [10] \<and>
   map_option (\<lambda>s'. handles s' 20) (ptr_plus int_type 10 3 20 (cycle_state (Some 1000))) =
     Some (Some \<lparr>mem = Some 1000, pval = 1060\<rparr>) \<and>
   map_option (\<lambda>s'. handles s' 20) (ptr_post_inc int_type 10 20 (cycle_state (Some 1000))) =
     Some (Some \<lparr>mem = Some 1000, pval = 1048\<rparr>) \<and>
   map_option (\<lambda>s'. handles s' 10) (ptr_post_inc int_type 10 20 (cycle_state (Some 1000))) =
     Some (Some \<lparr>mem = Some 1000, pval = 1052\<rparr>) \<and>
   map_option (\<lambda>s'. handles s' 10) (ptr_sub_assign int_type 10 3 (cycle_state (Some 1000))) =
     Some (Some \<lparr>mem = Some 1000, pval = 1036\<rparr>)"
proof -
  have h: "handles (cycle_state (Some 1000)) 10 = Some \<lparr>mem = Some 1000, pval = 1048\<rparr>"
    by (simp add: cycle_state_def)
  have stack: "constr_stack (cycle_state (Some 1000)) = []"
    by (simp add: cycle_state_def initial_state_def)
  have rts: "roots (cycle_state (Some 1000)) = [10]"
    by (simp add: cycle_state_def initial_state_def)
  have h2: "handles (cycle_state (Some 1000)) 1048 = Some \<lparr>mem = Some 2000, pval = 2048\<rparr>"
    by (simp add: cycle_state_def)
  from attachment_preserved [OF h, of 1048 int_type 3 20] h h2 stack rts show ?thesis
    by (simp add: assign_def ptr_plus_def ptr_post_inc_def ptr_sub_assign_def basic_ptr_from_def
        basic_ptr_copy_def ref_add_def link_def set_handle_def int_type_def)
qed

text \<open>
  Claim C9.  On an empty construction stack the zero-argument \<open>attach()\<close> sets the
  block of the handle to null, whatever it was attached to, and returns false.
\<close>

theorem attach0_empty_stack:
  assumes "handles s h = Some p" and "constr_stack s = []"
  shows "attach0 h s = Some (False, set_handle h (p\<lparr>mem := None\<rparr>) s) \<and>
         is_attached h (set_handle h (p\<lparr>mem := None\<rparr>) s) = Some False"
  using assms by (simp add: attach0_def is_attached_def set_handle_def)

theorem attach0_empty_stack_witness:
  "handles (cycle_state (Some 1000)) 10 = Some \<lparr>mem = Some 1000, pval = 1048\<rparr> \<and>
   constr_stack (cycle_state (Some 1000)) = [] \<and>
   is_attached 10 (cycle_state (Some 1000)) = Some True \<and>
   attach0 10 (cycle_state (Some 1000)) = Some (False, cycle_state None)"
proof -
  have h: "handles (cycle_state (Some 1000)) 10 = Some \<lparr>mem = Some 1000, pval = 1048\<rparr>"
    by (simp add: cycle_state_def)
  have c: "constr_stack (cycle_state (Some 1000)) = []"
    by (simp add: cycle_state_def initial_state_def)
  have e: "set_handle 10 (\<lparr>mem = Some 1000, pval = 1048\<rparr>\<lparr>mem := None\<rparr>) (cycle_state (Some 1000)) = cycle_state None"
    by (simp add: cycle_state_def set_handle_def)
  show ?thesis
    using attach0_empty_stack [OF h c] h c e
    by (simp add: is_attached_def)
qed

text \<open>
  Claim C10.  Assigning a raw pointer changes the target of the handle and nothing
  else: its block, every other handle, the roots list and the blocks stay.  A handle
  constructed from a raw pointer has block null.
\<close>

theorem assign_raw_frame:
  assumes "handles s h = Some p"
  shows "\<exists>s'. ptr_assign_raw h v s = Some s' \<and>
           handles s' h = Some (p\<lparr>pval := v\<rparr>) \<and>
           mem (p\<lparr>pval := v\<rparr>) = mem p \<and>
           (\<forall>h'. h' \<noteq> h \<longrightarrow> handles s' h' = handles s h') \<and>
           roots s' = roots s \<and> blocks s' = blocks s \<and>
           s' = s\<lparr>handles := handles s'\<rparr> \<and>
           (\<forall>r s''. ptr_raw r v s = Some s'' \<longrightarrow> handles s'' r = Some \<lparr>mem = None, pval = v\<rparr>)"
  using assms
  by (auto simp: ptr_assign_raw_def assign_raw_def set_handle_def ptr_raw_def basic_ptr_raw_def
      link_def split: list.splits option.splits if_splits)

theorem assign_raw_frame_witness:
  "handles (cycle_state (Some 1000)) 10 = Some \<lparr>mem = Some 1000, pval = 1048\<rparr> \<and>
   ptr_assign_raw 10 77 (cycle_state (Some 1000)) =
     Some ((cycle_state (Some 1000))\<lparr>handles := (handles (cycle_state (Some 1000)))(10 \<mapsto> \<lparr>mem = Some 1000, pval = 77\<rparr>)\<rparr>) \<and>
   map_option (\<lambda>s. handles s 20) (ptr_raw 20 77 (cycle_state (Some 1000))) = Some (Some \<lparr>mem = None, pval = 77\<rparr>)"
proof -
  have h: "handles (cycle_state (Some 1000)) 10 = Some \<lparr>mem = Some 1000, pval = 1048\<rparr>"
    by (simp add: cycle_state_def)
  have r: "ptr_raw 20 77 (cycle_state (Some 1000)) \<noteq> None"
    by (simp add: ptr_raw_def basic_ptr_raw_def link_def set_handle_def cycle_state_def initial_state_def)
  from assign_raw_frame [OF h, of 77] r h show ?thesis
    by (auto simp: ptr_assign_raw_def assign_raw_def set_handle_def)
qed

section \<open>Dereference\<close>

lemma check_cases:
  assumes "handles s h = Some p"
  shows "(pval p = 0 \<longrightarrow> check h s = Inl BadDeref) \<and>
         (pval p \<noteq> 0 \<and> mem p = None \<longrightarrow> check h s = Inr ()) \<and>
         (\<forall>m mb. pval p \<noteq> 0 \<and> mem p = Some m \<and> fmlookup (blocks s) m = Some mb \<longrightarrow>
            check h s = (if contains m mb (pval p) then Inr () else Inl OutOfBounds))"
  using assms by (simp add: check_def)

lemma alloc_array_int:
  "alloc_array int_type 10 4 False trivial_ctor (Some 1000) handle_state = (None, array_state)"
  by (simp add: alloc_array_def alloc_begin_def gc_def alloc_end_def try_end_def
      int_type_def destr_def mblock_ctor_def push_def set_handle_def array_state_def
      handle_state_def initial_state_def Let_def)

lemma ptr_index_checks_handle:
  "(\<exists>e. ptr_index T h n s = Inl e) \<longleftrightarrow> (\<exists>e. ptr_deref h s = Inl e)"
  by (auto simp: ptr_index_def ptr_deref_def split: sum.splits)

text \<open>
  Claim C2.  The test of \<open>check\<close> is the one the claim describes, and \<open>*(p + 4)\<close>
  fails with \<open>OutOfBounds\<close> while \<open>*(p + 3)\<close> succeeds.  But \<open>p[4]\<close> checks the
  handle \<open>p\<close>, whose target is the payload base, and not the element it returns:
  after \<open>p.alloc_array(4)\<close> on four-byte elements it yields the address 16 bytes
  past the base, outside the payload, and throws nothing.
\<close>

theorem index_bounds_unchecked:
  "alloc_array int_type 10 4 False trivial_ctor (Some 1000) handle_state = (None, array_state) \<and>
   handles array_state 10 = Some \<lparr>mem = Some 1000, pval = obj 1000\<rparr> \<and>
   ptr_index int_type 10 4 array_state = Inr (obj 1000 + 16) \<and>
   \<not> contains 1000 (the (fmlookup (blocks array_state) 1000)) (obj 1000 + 16) \<and>
   ptr_index int_type 10 4 array_state \<noteq> Inl OutOfBounds \<and>
   map_option (ptr_deref 20) (ptr_plus int_type 10 4 20 array_state) = Some (Inl OutOfBounds) \<and>
   map_option (ptr_deref 20) (ptr_plus int_type 10 3 20 array_state) = Some (Inr (obj 1000 + 12))"
  by (simp add: alloc_array_int)
     (simp add: array_state_def handle_state_def initial_state_def ptr_index_def ptr_deref_def
      ptr_plus_def basic_ptr_from_def link_def check_def contains_def set_handle_def int_type_def
      OutOfBounds_def BadDeref_def obj_def mblock_size_def)

section \<open>Allocation failures\<close>













lemma alloc_begin_handle_state:
  "alloc_begin 10 5 (word_of_nat (sizeof throw_type)) (destr throw_type) False (Some 1000) handle_state =
     (Inr (obj 1000),
      handle_state
        \<lparr>constr_stack := [1000],
         blocks := fmupd 1000 (mblock_ctor 5 20 True) fmempty,
         handles := [10 \<mapsto> \<lparr>mem = Some 1000, pval = obj 1000\<rparr>]\<rparr>)"
  by (simp add: alloc_begin_def gc_def handle_state_def initial_state_def throw_type_def destr_def
      push_def set_handle_def Let_def)




text \<open>
  The rollback is tied to the requesting handle: when a constructor has detached it,
  \<open>alloc_end\<close> pops the construction stack and returns.  No destructor runs and the
  block stays in the store, on no list.
\<close>

lemma alloc_array_detach_ctor:
  "alloc_array_args throw_type 10 5 detach_ctor (Some 1000) handle_state =
     (Some constructor_exception, abandoned_state) \<and>
   destroyed abandoned_state = [] \<and>
   fmlookup (blocks abandoned_state) 1000 = Some (mblock_ctor 5 20 True) \<and>
   constr_stack abandoned_state = [] \<and> new_blocks abandoned_state = [] \<and>
   active_blocks abandoned_state = []"
proof -
  let ?s1 = "handle_state
        \<lparr>constr_stack := [1000],
         blocks := fmupd 1000 (mblock_ctor 5 20 True) fmempty,
         handles := [10 \<mapsto> \<lparr>mem = Some 1000, pval = obj 1000\<rparr>]\<rparr>"
  let ?s2 = "handle_state
        \<lparr>constr_stack := [1000],
         blocks := fmupd 1000 (mblock_ctor 5 20 True) fmempty,
         handles := [10 \<mapsto> \<lparr>mem = None, pval = obj 1000\<rparr>]\<rparr>"
  have c: "construct detach_ctor 0 5 ?s1 = (Some constructor_exception, 1, ?s2)"
    by (simp add: construct.simps [of _ 0] construct.simps [of _ 1] detach_ctor_def detach_def
        set_handle_def handle_state_def)
  have "alloc_array_args throw_type 10 5 detach_ctor (Some 1000) handle_state =
          catch_all 10 1 constructor_exception ?s2"
    by (simp add: alloc_array_args_def alloc_begin_handle_state c)
  also have "\<dots> = (Some constructor_exception, abandoned_state)"
    by (simp add: catch_all_def alloc_end_def abandoned_state_def handle_state_def
        initial_state_def obj_def mblock_size_def)
  finally show ?thesis
    by (simp add: abandoned_state_def handle_state_def initial_state_def)
qed

lemma alloc_begin_refused_handle_state:
  "alloc_begin 10 4 (word_of_nat (sizeof int_type)) (destr int_type) False None handle_state =
     (Inl bad_alloc, handle_state)"
  by (simp add: alloc_begin_def gc_def handle_state_def initial_state_def set_handle_def Let_def)

lemma alloc_begin_refused_nested_state:
  "alloc_begin 1048 1 (word_of_nat (sizeof int_type)) (destr int_type) False None nested_state =
     (Inl bad_alloc, nested_state)"
proof -
  have "(handles nested_state)(1048 \<mapsto> \<lparr>mem = None, pval = 0\<rparr>) = handles nested_state"
    by (auto simp: nested_state_def)
  then show ?thesis
    by (simp add: alloc_begin_def gc_def nested_state_def initial_state_def set_handle_def Let_def)
qed

text \<open>
  Claim C4.  When \<open>new\<close> throws, \<open>alloc_begin\<close> has pushed nothing on the construction
  stack, yet the handler calls \<open>alloc_end\<close>, which pops before it tests \<open>mem\<close>.  On an
  empty stack the pop reads through a null pointer; inside the construction of block
  \<open>1000\<close> it takes that block off the stack, so the stack is not as it was before
  \<open>alloc_begin\<close>.
\<close>

theorem alloc_failure_unbalanced_pop:
  "alloc_begin 10 4 (word_of_nat (sizeof int_type)) (destr int_type) False None handle_state =
     (Inl bad_alloc, handle_state) \<and>
   constr_stack handle_state = [] \<and>
   alloc_end 10 0 handle_state = None \<and>
   alloc_array int_type 10 4 False trivial_ctor None handle_state =
     (Some undefined_behaviour, handle_state) \<and>
   alloc_begin 1048 1 (word_of_nat (sizeof int_type)) (destr int_type) False None nested_state =
     (Inl bad_alloc, nested_state) \<and>
   constr_stack nested_state = [1000] \<and>
   alloc_end 1048 0 nested_state = Some (nested_state\<lparr>constr_stack := []\<rparr>) \<and>
   alloc int_type 1048 False trivial_ctor None nested_state =
     (Some bad_alloc, nested_state\<lparr>constr_stack := []\<rparr>)"
proof -
  have e1: "alloc_end 10 0 handle_state = None"
    by (simp add: alloc_end_def handle_state_def initial_state_def)
  have e2: "alloc_end 1048 0 nested_state = Some (nested_state\<lparr>constr_stack := []\<rparr>)"
    by (simp add: alloc_end_def nested_state_def initial_state_def)
  have c1: "constr_stack handle_state = []"
    by (simp add: handle_state_def initial_state_def)
  have c2: "constr_stack nested_state = [1000]"
    by (simp add: nested_state_def)
  show ?thesis
    by (simp add: alloc_begin_refused_handle_state alloc_begin_refused_nested_state e1 e2 c1 c2
        alloc_array_def alloc_def catch_all_def)
qed

section \<open>Threshold policy\<close>

text \<open>
  Claim C8.  A conditional collection below the threshold returns 0 and leaves the state
  as it is; \<open>collect\<close> does not look at the counter (unless a collection is running,
  it behaves the same for every value of \<open>allocated\<close>); \<open>collect_threshold 0\<close> reads
  the threshold, and a nonzero argument replaces it and returns the old value.
\<close>

theorem gc_threshold_policy:
  "(allocated s < threshold s \<longrightarrow> gc False s = Some (0, s)) \<and>
   collect (s\<lparr>allocated := a\<rparr>) =
     (if busy s then Some (0, s\<lparr>allocated := a\<rparr>) else collect s) \<and>
   collect_threshold 0 s = (threshold s, s) \<and>
   (t \<noteq> 0 \<longrightarrow> collect_threshold t s = (threshold s, s\<lparr>threshold := t\<rparr>))"
  by (simp add: gc_def collect_def collect_threshold_def)

lemma cycle_state_below_threshold:
  "allocated (cycle_state None) < threshold (cycle_state None)" "\<not> busy (cycle_state None)"
  by (simp_all add: cycle_state_def initial_state_def)

theorem gc_threshold_policy_witness:
  "allocated (cycle_state None) < threshold (cycle_state None) \<and>
   gc False (cycle_state None) = Some (0, cycle_state None) \<and>
   collect ((cycle_state None)\<lparr>allocated := 7\<rparr>) = collect (cycle_state None) \<and>
   collect (cycle_state None) =
     Some (24, (cycle_state None)\<lparr>active_blocks := [], blocks := fmempty,
                 destroyed := [(1048, 0), (2048, 0), (3048, 0)]\<rparr>) \<and>
   collect_threshold 0 initial_state = (100 * 1024, initial_state) \<and>
   (5 :: 32 word) \<noteq> 0 \<and>
   collect_threshold 5 initial_state = (100 * 1024, initial_state\<lparr>threshold := 5\<rparr>)"
proof -
  from gc_threshold_policy [of "cycle_state None" 7 5] cycle_state_below_threshold
  have "gc False (cycle_state None) = Some (0, cycle_state None)"
    "collect ((cycle_state None)\<lparr>allocated := 7\<rparr>) = collect (cycle_state None)"
    by simp_all
  moreover from gc_threshold_policy [of initial_state 7 5]
  have "collect_threshold 0 initial_state = (100 * 1024, initial_state)"
    "collect_threshold 5 initial_state = (100 * 1024, initial_state\<lparr>threshold := 5\<rparr>)"
    by (simp_all add: initial_state_def)
  ultimately show ?thesis
    using cycle_state_below_threshold(1) collect_cycle_garbage by simp
qed

end
